theory Spec2Isabelle
  imports Main "HOL-Library.Word" "HOL-Library.Monad_Syntax" "HOL-Library.Sublist"
begin

unbundle bit_operations_syntax

section \<open>Protocol constants (firmware/include/protocol.h) and configuration (config.h)\<close>

type_synonym byte = "8 word"

abbreviation (input) PROTO_HEADER_0 :: byte where "PROTO_HEADER_0 \<equiv> 0xAA"
abbreviation (input) PROTO_HEADER_1 :: byte where "PROTO_HEADER_1 \<equiv> 0x55"
abbreviation (input) PROTO_MAX_PAYLOAD :: nat where "PROTO_MAX_PAYLOAD \<equiv> 16"

abbreviation (input) CMD_SET_STEERING :: byte where "CMD_SET_STEERING \<equiv> 0x01"
abbreviation (input) CMD_SET_GAIN :: byte where "CMD_SET_GAIN \<equiv> 0x02"
abbreviation (input) CMD_SET_ENABLE :: byte where "CMD_SET_ENABLE \<equiv> 0x03"
abbreviation (input) CMD_TELEMETRY :: byte where "CMD_TELEMETRY \<equiv> 0x10"
abbreviation (input) CMD_FAULT :: byte where "CMD_FAULT \<equiv> 0x11"
abbreviation (input) CMD_HEARTBEAT :: byte where "CMD_HEARTBEAT \<equiv> 0xF0"

abbreviation (input) FAULT_NONE :: byte where "FAULT_NONE \<equiv> 0x00"
abbreviation (input) FAULT_SERIAL_TIMEOUT :: byte where "FAULT_SERIAL_TIMEOUT \<equiv> 0x01"

abbreviation (input) SERVO_FREQ_HZ :: nat where "SERVO_FREQ_HZ \<equiv> 50"
abbreviation (input) SERVO_MIN_US :: nat where "SERVO_MIN_US \<equiv> 500"
abbreviation (input) SERVO_MAX_US :: nat where "SERVO_MAX_US \<equiv> 2500"
abbreviation (input) SERIAL_TIMEOUT_MS :: "32 word" where "SERIAL_TIMEOUT_MS \<equiv> 1000"
abbreviation (input) TELEMETRY_INTERVAL_MS :: "32 word" where "TELEMETRY_INTERVAL_MS \<equiv> 20"
abbreviation (input) HEARTBEAT_INTERVAL_MS :: "32 word" where "HEARTBEAT_INTERVAL_MS \<equiv> 500"
abbreviation (input) DEFAULT_GAIN :: byte where "DEFAULT_GAIN \<equiv> 50"
abbreviation (input) LEDC_RESOLUTION :: nat where "LEDC_RESOLUTION \<equiv> 16"

text \<open>\<open>sizeof(rx_buf)\<close>: the receive buffer is \<open>uint8_t rx_buf[64]\<close>.\<close>

abbreviation (input) RX_BUF_SIZE :: nat where "RX_BUF_SIZE \<equiv> 64"

section \<open>CRC-8, polynomial 0x07 (protocol.h, \<open>crc8\<close>)\<close>

text \<open>
  One pass of the inner loop: \<open>crc = (crc & 0x80) ? (crc << 1) ^ 0x07 : (crc << 1)\<close>,
  the result stored back into a \<open>uint8_t\<close>.
\<close>

definition crc8_shift :: "byte \<Rightarrow> byte" where
  "crc8_shift crc = (if crc AND 0x80 \<noteq> 0 then push_bit 1 crc XOR 0x07 else push_bit 1 crc)"

text \<open>One pass of the outer loop: \<open>crc ^= data[i]\<close>, then eight shifts.\<close>

definition crc8_byte :: "byte \<Rightarrow> byte \<Rightarrow> byte" where
  "crc8_byte crc b = (crc8_shift ^^ 8) (crc XOR b)"

text \<open>\<open>crc8(data, len)\<close> over the \<open>len\<close> bytes it reads, starting from \<open>crc = 0x00\<close>.\<close>

definition crc8 :: "byte list \<Rightarrow> byte" where
  "crc8 data = foldl crc8_byte 0 data"

section \<open>Global state of the firmware (the \<open>static\<close> variables of main.cpp)\<close>

text \<open>
  \<open>ledc_duty\<close> is the duty last written to the LEDC channel with \<open>ledcWrite\<close>: the
  actuator boundary. Duty 0 means no pulses, the relaxed servo.
\<close>

record state =
  servo_enabled :: bool
  commanded_pos :: "16 word"
  gain :: byte
  servo_angle_adc :: "16 word"
  loop_rate_hz :: "16 word"
  fault_code :: byte
  last_cmd_time :: "32 word"
  last_telemetry_time :: "32 word"
  last_heartbeat_time :: "32 word"
  loop_count :: "32 word"
  loop_rate_timer :: "32 word"
  rx_buf :: "byte list"
  rx_pos :: byte
  ledc_duty :: "32 word"

section \<open>Servo output\<close>

text \<open>
  \<open>microsToTicks\<close>: \<open>(uint32_t)((uint64_t)us * (1 << LEDC_RESOLUTION) * SERVO_FREQ_HZ / 1000000UL)\<close>,
  computed in 64 bits and cast to 32 bits at the end.
\<close>

definition microsToTicks :: "32 word \<Rightarrow> 32 word" where
  "microsToTicks us =
     ucast ((ucast us :: 64 word) * 2 ^ LEDC_RESOLUTION * of_nat SERVO_FREQ_HZ div 1000000)"

text \<open>Arduino's \<open>constrain(amt, low, high)\<close> macro on \<open>uint32_t\<close>.\<close>

definition constrain :: "32 word \<Rightarrow> 32 word \<Rightarrow> 32 word \<Rightarrow> 32 word" where
  "constrain amt low high = (if amt < low then low else if amt > high then high else amt)"

definition servoWriteUs :: "32 word \<Rightarrow> state \<Rightarrow> state" where
  "servoWriteUs us s =
     s\<lparr>ledc_duty := microsToTicks (constrain us (word_of_nat SERVO_MIN_US) (word_of_nat SERVO_MAX_US))\<rparr>"

definition servoDisable :: "state \<Rightarrow> state" where
  "servoDisable s = s\<lparr>ledc_duty := 0\<rparr>"

text \<open>C's integer division, which truncates towards zero.\<close>

definition c_div :: "int \<Rightarrow> int \<Rightarrow> int" where
  "c_div a b = sgn a * sgn b * (\<bar>a\<bar> div \<bar>b\<bar>)"

text \<open>
  The Arduino core's \<open>map(x, in_min, in_max, out_min, out_max)\<close> on \<open>long\<close>, a library
  function that is not part of this repository:
  \<open>(x - in_min) * (out_max - out_min) / (in_max - in_min) + out_min\<close>.
  With the arguments \<open>positionToUs\<close> passes, no intermediate value leaves the 32-bit range.
\<close>

definition arduino_map :: "int \<Rightarrow> int \<Rightarrow> int \<Rightarrow> int \<Rightarrow> int \<Rightarrow> int" where
  "arduino_map x in_min in_max out_min out_max =
     c_div ((x - in_min) * (out_max - out_min)) (in_max - in_min) + out_min"

text \<open>
  \<open>positionToUs\<close>: \<open>deflection = (int32_t)pos * gain / 100\<close>, then the map onto
  \<open>SERVO_MIN_US..SERVO_MAX_US\<close>, cast to \<open>uint32_t\<close>.
\<close>

definition positionToUs :: "state \<Rightarrow> 16 word \<Rightarrow> 32 word" where
  "positionToUs s pos =
     (let deflection = c_div (sint pos * uint (gain s)) 100
      in word_of_int (arduino_map deflection (-32768) 32767 (int SERVO_MIN_US) (int SERVO_MAX_US)))"

section \<open>Protocol handling\<close>

text \<open>
  \<open>handlePacket(cmd, payload, len)\<close>. The first argument is the value \<open>millis()\<close>
  returns at the call; \<open>payload\<close> is the byte sequence the pointer refers to.
\<close>

definition handlePacket :: "32 word \<Rightarrow> byte \<Rightarrow> byte list \<Rightarrow> byte \<Rightarrow> state \<Rightarrow> state" where
  "handlePacket t cmd payload len s0 =
     (let s = s0\<lparr>last_cmd_time := t\<rparr> in
      if cmd = CMD_SET_STEERING then
        (if len \<ge> 2
         then s\<lparr>commanded_pos := ucast (payload ! 0) OR push_bit 8 (ucast (payload ! 1))\<rparr>
         else s)
      else if cmd = CMD_SET_GAIN then
        (if len \<ge> 1 then s\<lparr>gain := min (payload ! 0) 100\<rparr> else s)
      else if cmd = CMD_SET_ENABLE then
        (if len \<ge> 1 then
           (let s' = s\<lparr>servo_enabled := (payload ! 0 \<noteq> 0)\<rparr>
            in if \<not> servo_enabled s' then servoDisable s' else s')
         else s)
      else if cmd = CMD_HEARTBEAT then s
      else s)"

subsection \<open>Reads of the receive buffer\<close>

text \<open>
  \<open>rx_buf[i]\<close>: a read at an index outside the 64-byte array is undefined behaviour
  in C; here it is the value \<open>None\<close>.
\<close>

definition rd :: "byte list \<Rightarrow> nat \<Rightarrow> byte option" where
  "rd buf i = (if i < RX_BUF_SIZE \<and> i < length buf then Some (buf ! i) else None)"

text \<open>
  The \<open>n\<close> bytes a callee reads through the pointer \<open>&rx_buf[off]\<close>; \<open>None\<close> when the
  range leaves the array.
\<close>

definition slice :: "byte list \<Rightarrow> nat \<Rightarrow> nat \<Rightarrow> byte list option" where
  "slice buf off n =
     (if off + n \<le> RX_BUF_SIZE \<and> off + n \<le> length buf then Some (take n (drop off buf)) else None)"

subsection \<open>The read loop of \<open>processSerial\<close>\<close>

text \<open>
  One iteration of \<open>while (Serial.available())\<close>:
  \<open>if (rx_pos >= sizeof(rx_buf)) rx_pos = 0; rx_buf[rx_pos++] = Serial.read();\<close>
\<close>

definition rx_push :: "state \<Rightarrow> byte \<Rightarrow> state" where
  "rx_push s b =
     (let p = (if unat (rx_pos s) \<ge> RX_BUF_SIZE then 0 else rx_pos s)
      in s\<lparr>rx_buf := (rx_buf s)[unat p := b], rx_pos := p + 1\<rparr>)"

definition rx_fill :: "byte list \<Rightarrow> state \<Rightarrow> state" where
  "rx_fill bytes s = foldl rx_push s bytes"

lemma rx_pos_handlePacket: "rx_pos (handlePacket t c p l s) = rx_pos s"
  by (simp add: handlePacket_def servoDisable_def Let_def)

lemma rx_buf_handlePacket: "rx_buf (handlePacket t c p l s) = rx_buf s"
  by (simp add: handlePacket_def servoDisable_def Let_def)

lemma rd_SomeD: "rd buf i = Some b \<Longrightarrow> i < RX_BUF_SIZE"
  by (simp add: rd_def split: if_splits)

lemma unat_byte_less: "unat (p :: byte) < 256"
  using unsigned_less [of p, where ?'a = nat] by simp

lemma unat_search_Suc:
  assumes "unat (search :: byte) + 4 < unat (p :: byte)"
  shows "unat (search + 1) = unat search + 1"
  using assms unat_byte_less [of p] by (simp add: unat_word_ariths)

lemma unat_search_total:
  assumes "rd buf (unat (search :: byte) + 4 + unat (plen :: byte)) = Some a"
  shows "unat (5 + plen) = 5 + unat plen"
    and "unat (search + (5 + plen)) = unat search + 5 + unat plen"
proof -
  from assms have "unat search + 4 + unat plen < 64" by (rule rd_SomeD)
  then show "unat (5 + plen) = 5 + unat plen"
    and "unat (search + (5 + plen)) = unat search + 5 + unat plen"
    by (simp_all add: unat_word_ariths)
qed

subsection \<open>The parse loop of \<open>processSerial\<close>\<close>

text \<open>A call of \<open>handlePacket\<close>: command id, length byte, and the payload bytes.\<close>

type_synonym packet = "byte \<times> byte \<times> byte list"

text \<open>
  \<open>scan clk search s tr\<close> is the loop \<open>while (search + 4 < rx_pos)\<close> from the cursor
  \<open>search\<close>. \<open>clk k\<close> is the value of \<open>millis()\<close> at the \<open>k\<close>-th call of \<open>handlePacket\<close> in
  this pass, and \<open>tr\<close> collects the calls made so far. The result is the state, the final
  \<open>search\<close> and the calls; \<open>None\<close> when a read leaves \<open>rx_buf\<close> (undefined behaviour in C).
  Comparisons and indices are computed in \<open>int\<close> (hence on \<open>unat\<close>), \<open>total\<close>,
  \<open>crc_data_len\<close> and \<open>search\<close> in \<open>uint8_t\<close>. The loop can only stall when \<open>total\<close> wraps
  to 0, and then a read has left the array before: the recursion terminates.
\<close>

function scan :: "(nat \<Rightarrow> 32 word) \<Rightarrow> byte \<Rightarrow> state \<Rightarrow> packet list \<Rightarrow> (state \<times> byte \<times> packet list) option" where
  "scan clk search s tr =
     (if unat search + 4 < unat (rx_pos s) then
        do {
          h0 \<leftarrow> rd (rx_buf s) (unat search);
          if h0 \<noteq> PROTO_HEADER_0 then scan clk (search + 1) s tr
          else do {
            h1 \<leftarrow> rd (rx_buf s) (unat search + 1);
            if h1 \<noteq> PROTO_HEADER_1 then scan clk (search + 1) s tr
            else do {
              cmd \<leftarrow> rd (rx_buf s) (unat search + 2);
              plen \<leftarrow> rd (rx_buf s) (unat search + 3);
              let total = 5 + plen;
              if unat search + unat total > unat (rx_pos s) then Some (s, search, tr)
              else do {
                let crc_data_len = 2 + plen;
                cdata \<leftarrow> slice (rx_buf s) (unat search + 2) (unat crc_data_len);
                let expected = crc8 cdata;
                actual \<leftarrow> rd (rx_buf s) (unat search + 4 + unat plen);
                if expected = actual then do {
                  payload \<leftarrow> slice (rx_buf s) (unat search + 4) (unat plen);
                  scan clk (search + total) (handlePacket (clk (length tr)) cmd payload plen s)
                    (tr @ [(cmd, plen, payload)])
                }
                else scan clk (search + total) s tr
              }
            }
          }
        }
      else Some (s, search, tr))"
  by pat_completeness auto
termination scan
proof (relation "measure (\<lambda>(clk, search, s, tr). unat (rx_pos s) - unat search)", goal_cases)
  case 1
  show ?case by simp
next
  case (2 clk search s tr h0)
  then show ?case by (simp add: unat_search_Suc)
next
  case (3 clk search s tr h0 h1)
  then show ?case by (simp add: unat_search_Suc)
next
  case (4 clk search s tr h0 h1 cmd plen total cdl cdata expected actual payload)
  then show ?case by (simp add: rx_pos_handlePacket unat_search_total)
next
  case (5 clk search s tr h0 h1 cmd plen total cdl cdata expected actual)
  then show ?case by (simp add: unat_search_total)
qed

text \<open>
  \<open>processSerial\<close>: the read loop over the bytes the transport has available, the parse
  loop from \<open>search = 0\<close>, then \<open>memmove(rx_buf, &rx_buf[search], remaining)\<close> when
  \<open>search > 0\<close>. The result carries the calls of \<open>handlePacket\<close> made, in order.
\<close>

definition processSerial :: "(nat \<Rightarrow> 32 word) \<Rightarrow> byte list \<Rightarrow> state \<Rightarrow> (state \<times> packet list) option" where
  "processSerial clk bytes s0 =
     do {
       (s, search, tr) \<leftarrow> scan clk 0 (rx_fill bytes s0) [];
       if search > 0 then
         do {
           let remaining = rx_pos s - search;
           moved \<leftarrow> slice (rx_buf s) (unat search) (unat remaining);
           Some (s\<lparr>rx_buf := moved @ drop (length moved) (rx_buf s), rx_pos := remaining\<rparr>, tr)
         }
       else Some (s, tr)
     }"

subsection \<open>Outbound packets\<close>

text \<open>
  \<open>sendPacket(cmd, payload, len)\<close> builds the frame in \<open>pkt[5 + PROTO_MAX_PAYLOAD]\<close>
  and hands \<open>5 + len\<close> bytes to \<open>Serial.write\<close>; the result is those bytes. A \<open>len\<close>
  above \<open>PROTO_MAX_PAYLOAD\<close> writes past \<open>pkt\<close>, and \<open>memcpy\<close> reads \<open>len\<close> bytes of
  \<open>payload\<close>: both are \<open>None\<close> here when out of range.
\<close>

definition sendPacket :: "byte \<Rightarrow> byte list \<Rightarrow> byte \<Rightarrow> byte list option" where
  "sendPacket cmd payload len =
     (if unat len \<le> PROTO_MAX_PAYLOAD \<and> unat len \<le> length payload then
        (let body = cmd # len # take (unat len) payload
         in Some (PROTO_HEADER_0 # PROTO_HEADER_1 # body @ [crc8 body]))
      else None)"

definition sendTelemetry :: "state \<Rightarrow> byte list option" where
  "sendTelemetry s =
     sendPacket CMD_TELEMETRY
       [ucast (servo_angle_adc s), ucast (drop_bit 8 (servo_angle_adc s)),
        ucast (loop_rate_hz s), ucast (drop_bit 8 (loop_rate_hz s))] 4"

definition sendFault :: "byte \<Rightarrow> byte list option" where
  "sendFault code = sendPacket CMD_FAULT [code] 1"

section \<open>\<open>setup\<close> and \<open>loop\<close>\<close>

text \<open>
  \<open>setup_fw\<close> is the state after the firmware's \<open>setup()\<close>: the initialisers of the globals, \<open>servoDisable()\<close>, and the
  two readings of \<open>millis()\<close> stored in \<open>last_cmd_time\<close> and \<open>loop_rate_timer\<close>.
\<close>

definition setup_fw :: "32 word \<Rightarrow> 32 word \<Rightarrow> state" where
  "setup_fw t0 t1 =
     servoDisable
       \<lparr>servo_enabled = False, commanded_pos = 0, gain = DEFAULT_GAIN, servo_angle_adc = 0,
        loop_rate_hz = 0, fault_code = FAULT_NONE, last_cmd_time = t0, last_telemetry_time = 0,
        last_heartbeat_time = 0, loop_count = 0, loop_rate_timer = t1,
        rx_buf = replicate RX_BUF_SIZE 0, rx_pos = 0, ledc_duty = 0\<rparr>"

text \<open>
  What one iteration of \<open>loop()\<close> takes from its environment: \<open>now\<close>, the reading of
  \<open>millis()\<close> at the top; \<open>rx\<close>, the bytes the read loop takes from the transport;
  \<open>rx_millis k\<close>, the reading of \<open>millis()\<close> at the \<open>k\<close>-th call of \<open>handlePacket\<close>;
  \<open>adc\<close>, the result of \<open>analogRead\<close>.
\<close>

record tick_in =
  now :: "32 word"
  rx :: "byte list"
  rx_millis :: "nat \<Rightarrow> 32 word"
  adc :: "16 word"

text \<open>The sections of \<open>loop()\<close>, each with the frames it writes to the transport.\<close>

definition safety_timeout :: "32 word \<Rightarrow> state \<Rightarrow> (state \<times> byte list list) option" where
  "safety_timeout t s =
     (if servo_enabled s \<and> t - last_cmd_time s > SERIAL_TIMEOUT_MS then
        do {
          let s1 = servoDisable (s\<lparr>servo_enabled := False\<rparr>);
          let s2 = s1\<lparr>fault_code := FAULT_SERIAL_TIMEOUT\<rparr>;
          f \<leftarrow> sendFault (fault_code s2);
          Some (s2, [f])
        }
      else Some (s, []))"

definition drive_servo :: "state \<Rightarrow> state" where
  "drive_servo s = (if servo_enabled s then servoWriteUs (positionToUs s (commanded_pos s)) s else s)"

definition telemetry_due :: "32 word \<Rightarrow> state \<Rightarrow> (state \<times> byte list list) option" where
  "telemetry_due t s =
     (if t - last_telemetry_time s \<ge> TELEMETRY_INTERVAL_MS then
        do {
          let s1 = s\<lparr>last_telemetry_time := t\<rparr>;
          f \<leftarrow> sendTelemetry s1;
          Some (s1, [f])
        }
      else Some (s, []))"

definition heartbeat_due :: "32 word \<Rightarrow> state \<Rightarrow> (state \<times> byte list list) option" where
  "heartbeat_due t s =
     (if t - last_heartbeat_time s \<ge> HEARTBEAT_INTERVAL_MS then
        do {
          let s1 = s\<lparr>last_heartbeat_time := t\<rparr>;
          f \<leftarrow> sendPacket CMD_HEARTBEAT [] 0;
          Some (s1, [f])
        }
      else Some (s, []))"

definition loop_rate :: "32 word \<Rightarrow> state \<Rightarrow> state" where
  "loop_rate t s =
     (let s1 = s\<lparr>loop_count := loop_count s + 1\<rparr>
      in if t - loop_rate_timer s1 \<ge> 1000
         then s1\<lparr>loop_rate_hz := ucast (loop_count s1), loop_count := 0, loop_rate_timer := t\<rparr>
         else s1)"

text \<open>
  One iteration of \<open>loop()\<close>: the new state, the calls of \<open>handlePacket\<close> made, and the
  frames written to the transport, in order. The pacing \<open>delay\<close> at the end changes no
  variable and is left out.
\<close>

definition loop :: "tick_in \<Rightarrow> state \<Rightarrow> (state \<times> packet list \<times> byte list list) option" where
  "loop i s0 =
     do {
       (s1, tr) \<leftarrow> processSerial (rx_millis i) (rx i) s0;
       (s2, tx_fault) \<leftarrow> safety_timeout (now i) s1;
       let s3 = s2\<lparr>servo_angle_adc := adc i\<rparr>;
       let s4 = drive_servo s3;
       (s5, tx_tel) \<leftarrow> telemetry_due (now i) s4;
       (s6, tx_hb) \<leftarrow> heartbeat_due (now i) s5;
       let s7 = loop_rate (now i) s6;
       Some (s7, tr, tx_fault @ tx_tel @ tx_hb)
     }"

text \<open>Several iterations in a row, with the calls and the frames of all of them.\<close>

fun run :: "tick_in list \<Rightarrow> state \<Rightarrow> (state \<times> packet list \<times> byte list list) option" where
  "run [] s = Some (s, [], [])"
| "run (i # rest) s =
     do {
       (s1, tr1, tx1) \<leftarrow> loop i s;
       (s2, tr2, tx2) \<leftarrow> run rest s1;
       Some (s2, tr1 @ tr2, tx1 @ tx2)
     }"

text \<open>The states the firmware can be in between two iterations of \<open>loop()\<close>.\<close>

inductive reachable :: "state \<Rightarrow> bool" where
  reachable_setup: "reachable (setup_fw t0 t1)"
| reachable_loop: "reachable s \<Longrightarrow> loop i s = Some (s', tr, tx) \<Longrightarrow> reachable s'"

section \<open>The parse loop as a function on the pending bytes\<close>

text \<open>
  \<open>frames xs\<close> describes, on the list \<open>xs\<close> of bytes between \<open>search\<close> and \<open>rx_pos\<close>, what
  the parse loop does: the packets it hands to \<open>handlePacket\<close> and the bytes left unconsumed;
  \<open>None\<close> where a length byte of 251 or more makes the 8-bit \<open>total\<close> wrap. It is related to
  \<open>scan\<close> by the lemma \<open>scan_frames\<close> below and is used in proofs only.
\<close>
function frames :: "byte list \<Rightarrow> (packet list \<times> byte list) option" where
  "frames xs =
     (if length xs \<le> 4 then Some ([], xs)
      else if xs ! 0 \<noteq> PROTO_HEADER_0 \<or> xs ! 1 \<noteq> PROTO_HEADER_1 then frames (tl xs)
      else if 251 \<le> unat (xs ! 3) then None
      else if length xs < 5 + unat (xs ! 3) then Some ([], xs)
      else
        (case frames (drop (5 + unat (xs ! 3)) xs) of
           None \<Rightarrow> None
         | Some (ps, rest) \<Rightarrow>
             Some (if crc8 (xs ! 2 # xs ! 3 # take (unat (xs ! 3)) (drop 4 xs)) = xs ! (4 + unat (xs ! 3))
                   then (xs ! 2, xs ! 3, take (unat (xs ! 3)) (drop 4 xs)) # ps else ps, rest)))"
  by pat_completeness auto
termination
  by (relation "measure length") auto

text \<open>Packets found so far, put in front of the result for the remaining bytes.\<close>

definition join :: "packet list \<Rightarrow> (packet list \<times> byte list) option \<Rightarrow> (packet list \<times> byte list) option" where
  "join ps r = map_option (\<lambda>(qs, rest). (ps @ qs, rest)) r"

text \<open>No position of the list holds the header signature \<open>0xAA 0x55\<close>.\<close>

fun no_header :: "byte list \<Rightarrow> bool" where
  "no_header (x # y # zs) = (\<not> (x = PROTO_HEADER_0 \<and> y = PROTO_HEADER_1) \<and> no_header (y # zs))"
| "no_header [x] = True"
| "no_header [] = True"


text \<open>The calls of \<open>handlePacket\<close> for a list of packets, the \<open>k\<close>-th call first.\<close>

fun dispatch :: "(nat \<Rightarrow> 32 word) \<Rightarrow> nat \<Rightarrow> packet list \<Rightarrow> state \<Rightarrow> state" where
  "dispatch clk k [] s = s"
| "dispatch clk k ((c, l, p) # ps) s = dispatch clk (Suc k) ps (handlePacket (clk k) c p l s)"

text \<open>The bytes below the write cursor, and the shape of the receive buffer.\<close>

definition pending :: "state \<Rightarrow> byte list" where
  "pending s = take (unat (rx_pos s)) (rx_buf s)"

definition rx_ok :: "state \<Rightarrow> bool" where
  "rx_ok s \<longleftrightarrow> length (rx_buf s) = RX_BUF_SIZE \<and> unat (rx_pos s) \<le> RX_BUF_SIZE"

text \<open>
  Decoding a stream that arrives in chunks, one call of \<open>processSerial\<close> per chunk, and the
  condition that every chunk fits into the free part of the buffer when it arrives.
\<close>

fun feed :: "((nat \<Rightarrow> 32 word) \<times> byte list) list \<Rightarrow> state \<Rightarrow> (state \<times> packet list) option" where
  "feed [] s = Some (s, [])"
| "feed ((clk, chunk) # cs) s =
     do {
       (s1, tr1) \<leftarrow> processSerial clk chunk s;
       (s2, tr2) \<leftarrow> feed cs s1;
       Some (s2, tr1 @ tr2)
     }"

fun chunks_fit :: "((nat \<Rightarrow> 32 word) \<times> byte list) list \<Rightarrow> state \<Rightarrow> bool" where
  "chunks_fit [] s = True"
| "chunks_fit ((clk, chunk) # cs) s =
     (unat (rx_pos s) + length chunk \<le> RX_BUF_SIZE \<and>
      (case processSerial clk chunk s of None \<Rightarrow> True | Some (s1, tr1) \<Rightarrow> chunks_fit cs s1))"

text \<open>A clock that reads 0 at every call, for concrete runs.\<close>

definition still_clock :: "nat \<Rightarrow> 32 word" where
  "still_clock k = 0"

text \<open>A frame on the transport that carries a Fault packet.\<close>

definition is_fault :: "byte list \<Rightarrow> bool" where
  "is_fault f \<longleftrightarrow> 3 \<le> length f \<and> f ! 2 = CMD_FAULT"

text \<open>A call of \<open>handlePacket\<close> that sets the enabled flag: SetEnable with a nonzero byte.\<close>

definition enabling :: "packet \<Rightarrow> bool" where
  "enabling pk = (case pk of (c, l, p) \<Rightarrow> c = CMD_SET_ENABLE \<and> 1 \<le> l \<and> p ! 0 \<noteq> 0)"

text \<open>The safety invariant of the actuator boundary: disabled means duty 0, no pulses.\<close>

definition relaxed_if_disabled :: "state \<Rightarrow> bool" where
  "relaxed_if_disabled s \<longleftrightarrow> (\<not> servo_enabled s \<longrightarrow> ledc_duty s = 0)"

text \<open>
  Concrete iterations: one that receives SetEnable(1) at time 5, and one at time 2000 that
  receives a header with the length byte \<open>0xFB\<close>.
\<close>

definition stall_tick :: tick_in where
  "stall_tick = \<lparr>now = 2000, rx = [0xAA, 0x55, 0x01, 0xFB, 0x00], rx_millis = still_clock, adc = 0\<rparr>"

definition enable_tick :: tick_in where
  "enable_tick = \<lparr>now = 5, rx = [0xAA, 0x55, 0x03, 0x01, 0x01, 0xAF], rx_millis = still_clock, adc = 0\<rparr>"

section \<open>Properties of \<open>frames\<close>\<close>

declare frames.simps [simp del]

lemma frames_short: "length xs \<le> 4 \<Longrightarrow> frames xs = Some ([], xs)"
  by (subst frames.simps) simp

lemma frames_skip:
  "4 < length xs \<Longrightarrow> xs ! 0 \<noteq> 0xAA \<or> xs ! 1 \<noteq> 0x55 \<Longrightarrow> frames xs = frames (tl xs)"
  by (subst frames.simps) auto

lemma join_Nil [simp]: "join [] r = r"
  by (cases r) (auto simp: join_def)

lemma join_None [simp]: "join ps None = None"
  by (simp add: join_def)

lemma join_Some [simp]: "join ps (Some (qs, rest)) = Some (ps @ qs, rest)"
  by (simp add: join_def)

lemma join_join [simp]: "join ps (join qs r) = join (ps @ qs) r"
  by (cases r) (auto simp: join_def)

lemma frames_append:
  "frames (xs @ ys) = (case frames xs of None \<Rightarrow> None | Some (ps, r) \<Rightarrow> join ps (frames (r @ ys)))"
proof (induction xs rule: frames.induct)
  case (1 xs)
  show ?case
  proof (cases "length xs \<le> 4")
    case True
    then show ?thesis by (simp add: frames_short)
  next
    case long: False
    show ?thesis
    proof (cases "xs ! 0 \<noteq> 0xAA \<or> xs ! 1 \<noteq> 0x55")
      case True
      with long have "frames xs = frames (tl xs)" by (simp add: frames_skip)
      moreover from long True have "frames (xs @ ys) = frames (tl xs @ ys)"
        by (subst frames.simps) (auto simp: nth_append)
      ultimately show ?thesis using "1.IH"(1) long True by simp
    next
      case hdr: False
      let ?n = "unat (xs ! 3)"
      show ?thesis
      proof (cases "251 \<le> ?n")
        case True
        with long hdr have "frames xs = None" by (subst frames.simps) auto
        moreover from long hdr True have "frames (xs @ ys) = None"
          by (subst frames.simps) (auto simp: nth_append)
        ultimately show ?thesis by simp
      next
        case small: False
        show ?thesis
        proof (cases "length xs < 5 + ?n")
          case True
          with long hdr small have "frames xs = Some ([], xs)" by (subst frames.simps) auto
          then show ?thesis by simp
        next
          case complete: False
          let ?p = "take ?n (drop 4 xs)"
          let ?ok = "crc8 (xs ! 2 # xs ! 3 # ?p) = xs ! (4 + ?n)"
          let ?add = "if ?ok then [(xs ! 2, xs ! 3, ?p)] else []"
          from long hdr small complete
          have l: "frames xs = join ?add (frames (drop (5 + ?n) xs))"
            by (subst frames.simps) (auto split: option.splits)
          from long hdr small complete
          have r: "frames (xs @ ys) = join ?add (frames (drop (5 + ?n) xs @ ys))"
            by (subst frames.simps) (auto simp: nth_append split: option.splits)
          from "1.IH"(2) long hdr small complete
          have ih: "frames (drop (5 + ?n) xs @ ys) =
            (case frames (drop (5 + ?n) xs) of None \<Rightarrow> None | Some (ps, r) \<Rightarrow> join ps (frames (r @ ys)))"
            by simp
          show ?thesis
            unfolding l r ih by (auto split: option.splits)
        qed
      qed
    qed
  qed
qed

lemma frames_Nil [simp]: "frames [] = Some ([], [])"
  by (simp add: frames_short)

lemma frames_garbage_prefix:
  "no_header g \<Longrightarrow> 5 \<le> length ys \<Longrightarrow> hd ys \<noteq> 0x55 \<Longrightarrow> frames (g @ ys) = frames ys"
proof (induction g rule: no_header.induct)
  case (1 x y zs)
  then have "frames ((x # y # zs) @ ys) = frames (tl ((x # y # zs) @ ys))"
    by (intro frames_skip) auto
  with 1 show ?case by simp
next
  case (2 x)
  then have "ys \<noteq> []" by auto
  with 2 have "frames ([x] @ ys) = frames (tl ([x] @ ys))"
    by (intro frames_skip) (auto simp: hd_conv_nth)
  then show ?case by simp
next
  case 3
  show ?case by simp
qed

lemma frames_garbage_only:
  "no_header g \<Longrightarrow> frames g = Some ([], drop (length g - 4) g)"
proof (induction g rule: no_header.induct)
  case (1 x y zs)
  show ?case
  proof (cases "length (x # y # zs) \<le> 4")
    case True
    then show ?thesis by (simp add: frames_short)
  next
    case False
    with 1 have "frames (x # y # zs) = frames (tl (x # y # zs))"
      by (intro frames_skip) auto
    with 1 False show ?thesis by (simp add: drop_Cons')
  qed
qed (simp_all add: frames_short)

lemma drop_frame: "drop (5 + length p) (a # b # c # d # p @ x # ys) = ys"
  by (simp add: eval_nat_numeral)

lemma frames_frame:
  assumes "unat l = length p" and "length p \<le> 250"
  shows "frames (0xAA # 0x55 # c # l # p @ x # ys) =
           join (if crc8 (c # l # p) = x then [(c, l, p)] else []) (frames ys)"
  using assms by (subst frames.simps) (auto simp: nth_append drop_frame split: option.splits)

lemma no_header_suffix: "no_header xs \<Longrightarrow> suffix ys xs \<Longrightarrow> no_header ys"
proof (induction xs rule: no_header.induct)
  case (1 x y zs)
  then show ?case by (auto simp: suffix_Cons)
next
  case (2 x)
  then show ?case by (auto simp: suffix_Cons)
next
  case 3
  then show ?case by simp
qed



section \<open>Gain scaling\<close>

lemma c_div_zero [simp]: "c_div 0 b = 0"
  by (simp add: c_div_def)

lemma midpoint_value: "arduino_map 0 (-32768) 32767 500 2500 = 1500"
  by (simp add: arduino_map_def c_div_def)

section \<open>The parse loop refines \<open>frames\<close>\<close>

declare scan.simps [simp del]

lemma frames_suffix: "frames xs = Some (ps, rest) \<Longrightarrow> suffix rest xs"
proof (induction xs arbitrary: ps rest rule: frames.induct)
  case (1 xs)
  show ?case
  proof (cases "length xs \<le> 4")
    case True
    with "1.prems" show ?thesis by (simp add: frames_short)
  next
    case long: False
    show ?thesis
    proof (cases "xs ! 0 \<noteq> 0xAA \<or> xs ! 1 \<noteq> 0x55")
      case True
      with long "1.prems" have "frames (tl xs) = Some (ps, rest)" by (simp add: frames_skip)
      with "1.IH"(1) long True have "suffix rest (tl xs)" by simp
      then show ?thesis by (meson suffix_order.order_trans suffix_tl)
    next
      case hdr: False
      from "1.prems" long hdr have small: "\<not> 251 \<le> unat (xs ! 3)"
        by (subst (asm) frames.simps) (auto split: if_splits)
      show ?thesis
      proof (cases "length xs < 5 + unat (xs ! 3)")
        case True
        with "1.prems" long hdr small show ?thesis
          by (subst (asm) frames.simps) (auto split: if_splits)
      next
        case complete: False
        from "1.prems" long hdr small complete
        obtain qs where "frames (drop (5 + unat (xs ! 3)) xs) = Some (qs, rest)"
          by (subst (asm) frames.simps) (auto split: if_splits option.splits)
        with "1.IH"(2) long hdr small complete
        have "suffix rest (drop (5 + unat (xs ! 3)) xs)" by simp
        then show ?thesis by (meson suffix_order.order_trans suffix_drop)
      qed
    qed
  qed
qed

lemma rx_ok_handlePacket [simp]: "rx_ok (handlePacket t c p l s) = rx_ok s"
  by (simp add: rx_ok_def rx_pos_handlePacket rx_buf_handlePacket)

lemma pending_handlePacket [simp]: "pending (handlePacket t c p l s) = pending s"
  by (simp add: pending_def rx_pos_handlePacket rx_buf_handlePacket)

lemma length_pending: "rx_ok s \<Longrightarrow> length (pending s) = unat (rx_pos s)"
  by (simp add: pending_def rx_ok_def)

lemma rd_pending:
  assumes "rx_ok s" and "i + k < unat (rx_pos s)"
  shows "rd (rx_buf s) (i + k) = Some (drop i (pending s) ! k)"
  using assms by (simp add: rd_def rx_ok_def pending_def)

lemma slice_pending:
  assumes "rx_ok s" and "i + off + n \<le> unat (rx_pos s)"
  shows "slice (rx_buf s) (i + off) n = Some (take n (drop off (drop i (pending s))))"
  using assms by (simp add: slice_def rx_ok_def pending_def drop_take min_def add.commute)

lemma word_sub_of_nat_diff:
  assumes "unat (b :: byte) \<le> unat (a :: byte)"
  shows "a - of_nat (unat a - unat b) = b"
  using assms by simp

lemma unat_total_small:
  assumes "unat (plen :: byte) < 251"
  shows "unat (5 + plen) = 5 + unat plen"
  using assms by (simp add: unat_word_ariths)

lemma unat_total_wrap:
  assumes "251 \<le> unat (plen :: byte)"
  shows "unat (5 + plen) \<le> 4"
proof -
  have "unat plen < 256" by (rule unat_byte_less)
  with assms have "(5 + unat plen) mod 256 = 5 + unat plen - 256"
    by (simp add: mod_if)
  with assms \<open>unat plen < 256\<close> show ?thesis by (simp add: unat_word_ariths)
qed

lemma unat_crc_len:
  assumes "unat (plen :: byte) < 60"
  shows "unat (2 + plen) = 2 + unat plen"
  using assms by (simp add: unat_word_ariths)

lemma unat_advance:
  assumes "unat (search :: byte) + 5 + unat (plen :: byte) \<le> 64"
  shows "unat (search + (5 + plen)) = unat search + 5 + unat plen"
  using assms by (simp add: unat_word_ariths)

lemma crc_data_layout:
  assumes "4 + n \<le> length xs"
  shows "take (2 + n) (drop 2 xs) = xs ! 2 # xs ! 3 # take n (drop 4 xs)"
proof -
  from assms have "drop 2 xs = xs ! 2 # drop 3 xs" "drop 3 xs = xs ! 3 # drop 4 xs"
    using Cons_nth_drop_Suc [of 2 xs] Cons_nth_drop_Suc [of 3 xs] by (simp_all add: eval_nat_numeral)
  then show ?thesis by simp
qed

lemma scan_frames:
  assumes "rx_ok s" and "unat search \<le> unat (rx_pos s)"
  shows "scan clk search s tr =
     (case frames (drop (unat search) (pending s)) of
        None \<Rightarrow> None
      | Some (ps, rest) \<Rightarrow>
          Some (dispatch clk (length tr) ps s, rx_pos s - of_nat (length rest), tr @ ps))"
  using assms
proof (induction xs \<equiv> "drop (unat search) (pending s)" arbitrary: search s tr rule: frames.induct)
  case (1 search s tr)
  let ?i = "unat search"
  let ?pos = "unat (rx_pos s)"
  let ?xs = "drop ?i (pending s)"
  from "1.prems" have len: "length ?xs = ?pos - ?i"
    by (simp add: length_pending)
  from "1.prems" have pos64: "?pos \<le> 64" by (simp add: rx_ok_def)
  show ?case
  proof (cases "length ?xs \<le> 4")
    case True
    with len "1.prems" have "\<not> ?i + 4 < ?pos" by simp
    then have "scan clk search s tr = Some (s, search, tr)"
      by (subst scan.simps) simp
    moreover from True have "frames ?xs = Some ([], ?xs)" by (rule frames_short)
    moreover from "1.prems" len have "rx_pos s - of_nat (length ?xs) = search"
      by (simp add: word_sub_of_nat_diff)
    ultimately show ?thesis by simp
  next
    case long: False
    with len have guard: "?i + 4 < ?pos" by simp
    have r0: "rd (rx_buf s) ?i = Some (?xs ! 0)"
      using rd_pending [OF "1.prems"(1), of ?i 0] guard by simp
    have r1: "rd (rx_buf s) (?i + 1) = Some (?xs ! 1)"
      using rd_pending [OF "1.prems"(1), of ?i 1] guard by simp
    have r2: "rd (rx_buf s) (?i + 2) = Some (?xs ! 2)"
      using rd_pending [OF "1.prems"(1), of ?i 2] guard by simp
    have r3: "rd (rx_buf s) (?i + 3) = Some (?xs ! 3)"
      using rd_pending [OF "1.prems"(1), of ?i 3] guard by simp
    show ?thesis
    proof (cases "?xs ! 0 \<noteq> 0xAA \<or> ?xs ! 1 \<noteq> 0x55")
      case True
      from guard have u: "unat (search + 1) = ?i + 1" by (rule unat_search_Suc)
      from True guard r0 r1 have "scan clk search s tr = scan clk (search + 1) s tr"
        by (subst scan.simps) auto
      moreover have "tl ?xs = drop (unat (search + 1)) (pending s)"
        by (simp add: u drop_Suc tl_drop)
      with "1.hyps"(1) [OF long True, of "search + 1" s tr] "1.prems" u guard
      have "scan clk (search + 1) s tr =
        (case frames (tl ?xs) of None \<Rightarrow> None
         | Some (ps, rest) \<Rightarrow> Some (dispatch clk (length tr) ps s, rx_pos s - of_nat (length rest), tr @ ps))"
        by simp
      moreover from long True have "frames ?xs = frames (tl ?xs)" by (simp add: frames_skip)
      ultimately show ?thesis by simp
    next
      case hdr: False
      let ?plen = "?xs ! 3"
      let ?n = "unat ?plen"
      show ?thesis
      proof (cases "251 \<le> ?n")
        case True
        from unat_total_wrap [OF True] guard
        have nobreak: "\<not> ?pos < ?i + unat (5 + ?plen)" by simp
        from True have "rd (rx_buf s) (?i + 4 + ?n) = None" by (simp add: rd_def)
        with hdr guard r0 r1 r2 r3 nobreak have "scan clk search s tr = None"
          by (subst scan.simps) (simp add: Let_def)
        moreover from long hdr True have "frames ?xs = None"
          by (subst frames.simps) auto
        ultimately show ?thesis by simp
      next
        case small: False
        then have tot: "unat (5 + ?plen) = 5 + ?n" by (simp add: unat_total_small)
        show ?thesis
        proof (cases "length ?xs < 5 + ?n")
          case True
          with len tot have "?pos < ?i + unat (5 + ?plen)" by simp
          with hdr guard r0 r1 r2 r3 have "scan clk search s tr = Some (s, search, tr)"
            by (subst scan.simps) (simp add: Let_def)
          moreover from long hdr small True have "frames ?xs = Some ([], ?xs)"
            by (subst frames.simps) auto
          moreover from "1.prems" len have "rx_pos s - of_nat (length ?xs) = search"
            by (simp add: word_sub_of_nat_diff)
          ultimately show ?thesis by simp
        next
          case complete: False
          with len guard have fits: "?i + 5 + ?n \<le> ?pos" by simp
          with tot have nobreak: "\<not> ?pos < ?i + unat (5 + ?plen)" by simp
          from fits pos64 have n60: "?n < 60" by simp
          let ?p = "take ?n (drop 4 ?xs)"
          let ?body = "?xs ! 2 # ?plen # ?p"
          let ?search' = "search + (5 + ?plen)"
          from fits pos64 have u: "unat ?search' = ?i + 5 + ?n"
            by (intro unat_advance) simp
          have "unat (2 + ?plen) = 2 + ?n" by (rule unat_crc_len [OF n60])
          moreover have "4 + ?n \<le> length ?xs"
            unfolding len using fits by linarith
          then have "take (2 + ?n) (drop 2 ?xs) = ?body"
            by (rule crc_data_layout)
          moreover have "slice (rx_buf s) (?i + 2) (2 + ?n) = Some (take (2 + ?n) (drop 2 ?xs))"
            by (rule slice_pending [OF "1.prems"(1)]) (use fits in simp)
          ultimately have c1: "slice (rx_buf s) (?i + 2) (unat (2 + ?plen)) = Some ?body"
            by (simp only:)
          have c2: "rd (rx_buf s) (?i + 4 + ?n) = Some (?xs ! (4 + ?n))"
            using rd_pending [OF "1.prems"(1), of ?i "4 + ?n"] fits by (simp add: add.assoc)
          have c3: "slice (rx_buf s) (?i + 4) ?n = Some ?p"
            using slice_pending [OF "1.prems"(1), of ?i 4 ?n] fits by simp
          have "5 + ?n + ?i = ?i + 5 + ?n" by linarith
          then have dr: "drop (5 + ?n) ?xs = drop (unat ?search') (pending s)"
            by (simp only: drop_drop u)
          let ?ok = "crc8 ?body = ?xs ! (4 + ?n)"
          let ?s' = "if ?ok then handlePacket (clk (length tr)) (?xs ! 2) ?p ?plen s else s"
          let ?tr' = "if ?ok then tr @ [(?xs ! 2, ?plen, ?p)] else tr"
          from hdr guard r0 r1 r2 r3 nobreak c1 c2 c3
          have step: "scan clk search s tr = scan clk ?search' ?s' ?tr'"
            by (subst scan.simps) (simp add: Let_def)
          have ok': "rx_ok ?s'" "unat ?search' \<le> unat (rx_pos ?s')"
            "drop (5 + ?n) ?xs = drop (unat ?search') (pending ?s')"
            using "1.prems" u fits dr by (simp_all add: rx_pos_handlePacket)
          from "1.hyps"(2) [OF long hdr small complete ok'(3) ok'(1) ok'(2)]
          have ih: "scan clk ?search' ?s' ?tr' =
            (case frames (drop (5 + ?n) ?xs) of None \<Rightarrow> None
             | Some (ps, rest) \<Rightarrow>
                 Some (dispatch clk (length ?tr') ps ?s', rx_pos ?s' - of_nat (length rest), ?tr' @ ps))"
            using ok'(3) by simp
          from long hdr small complete
          have fr: "frames ?xs =
            (case frames (drop (5 + ?n) ?xs) of None \<Rightarrow> None
             | Some (ps, rest) \<Rightarrow> Some (if ?ok then (?xs ! 2, ?plen, ?p) # ps else ps, rest))"
            by (subst frames.simps) simp
          show ?thesis
            unfolding step ih fr
            by (auto simp: rx_pos_handlePacket split: option.splits)
        qed
      qed
    qed
  qed
qed

section \<open>\<open>processSerial\<close> on the pending bytes\<close>

lemma rx_ok_rx_push: "rx_ok s \<Longrightarrow> rx_ok (rx_push s b)"
  by (auto simp: rx_ok_def rx_push_def Let_def unat_word_ariths)

lemma rx_ok_rx_fill: "rx_ok s \<Longrightarrow> rx_ok (rx_fill bytes s)"
  unfolding rx_fill_def by (induction bytes arbitrary: s) (simp_all add: rx_ok_rx_push)

lemma pending_rx_push:
  assumes "rx_ok s" and "unat (rx_pos s) < 64"
  shows "pending (rx_push s b) = pending s @ [b]"
  using assms
  by (simp add: pending_def rx_push_def rx_ok_def Let_def unat_word_ariths take_Suc_conv_app_nth)

lemma rx_pos_rx_push:
  assumes "unat (rx_pos s) < 64"
  shows "unat (rx_pos (rx_push s b)) = unat (rx_pos s) + 1"
  using assms by (simp add: rx_push_def Let_def unat_word_ariths)

lemma pending_rx_fill:
  assumes "rx_ok s" and "unat (rx_pos s) + length bytes \<le> 64"
  shows "pending (rx_fill bytes s) = pending s @ bytes"
  using assms unfolding rx_fill_def
proof (induction bytes arbitrary: s)
  case Nil
  then show ?case by simp
next
  case (Cons b bytes)
  then have "unat (rx_pos s) < 64" by simp
  with Cons.prems have "pending (rx_push s b) = pending s @ [b]"
    and "unat (rx_pos (rx_push s b)) = unat (rx_pos s) + 1" and "rx_ok (rx_push s b)"
    by (simp_all add: pending_rx_push rx_pos_rx_push rx_ok_rx_push)
  with Cons.IH [of "rx_push s b"] Cons.prems show ?case by simp
qed

lemma rx_dispatch [simp]:
  "rx_buf (dispatch clk k ps s) = rx_buf s" "rx_pos (dispatch clk k ps s) = rx_pos s"
  by (induction clk k ps s rule: dispatch.induct)
    (simp_all add: rx_pos_handlePacket rx_buf_handlePacket)

lemma processSerial_None:
  assumes "rx_ok s0" and "frames (pending (rx_fill bytes s0)) = None"
  shows "processSerial clk bytes s0 = None"
  using assms scan_frames [of "rx_fill bytes s0" 0 clk "[]"]
  by (simp add: processSerial_def rx_ok_rx_fill)

lemma processSerial_Some:
  assumes "rx_ok s0" and "frames (pending (rx_fill bytes s0)) = Some (ps, rest)"
  shows "\<exists>buf'. processSerial clk bytes s0 =
            Some ((dispatch clk 0 ps (rx_fill bytes s0))\<lparr>rx_buf := buf', rx_pos := of_nat (length rest)\<rparr>, ps) \<and>
          length buf' = 64 \<and> take (length rest) buf' = rest \<and> length rest \<le> 64"
proof -
  let ?s = "rx_fill bytes s0"
  let ?d = "dispatch clk 0 ps ?s"
  let ?pos = "unat (rx_pos ?s)"
  from assms(1) have ok: "rx_ok ?s" by (rule rx_ok_rx_fill)
  then have lenp: "length (pending ?s) = ?pos" and pos64: "?pos \<le> 64" and lenb: "length (rx_buf ?s) = 64"
    by (simp_all add: length_pending rx_ok_def)
  from frames_suffix [OF assms(2)] have suf: "suffix rest (pending ?s)" .
  then have lr: "length rest \<le> ?pos" using lenp by (auto dest: suffix_length_le)
  from suf lenp have rest: "rest = drop (?pos - length rest) (pending ?s)"
    by (auto simp: suffix_def)
  let ?search = "rx_pos ?s - of_nat (length rest)"
  from lr pos64 have ur: "unat (of_nat (length rest) :: byte) = length rest"
    by (simp add: unat_of_nat)
  with lr have us: "unat ?search = ?pos - length rest"
    by (simp add: unat_sub word_le_nat_alt)
  have rem: "rx_pos ?s - ?search = of_nat (length rest)" by simp
  from scan_frames [OF ok, of 0 clk "[]"] assms(2)
  have sc: "scan clk 0 ?s [] = Some (?d, ?search, ps)" by simp
  show ?thesis
  proof (cases "?search > 0")
    case False
    then have z: "?search = 0" by (simp add: word_gt_0)
    with us lr have "length rest = ?pos" by simp
    with rest lenp have "rest = pending ?s" by simp
    moreover from z have "of_nat (length rest) = rx_pos ?s" by simp
    ultimately show ?thesis using sc z lenb pos64 \<open>length rest = ?pos\<close>
      by (intro exI [of _ "rx_buf ?s"]) (simp add: processSerial_def pending_def)
  next
    case True
    let ?moved = "take (length rest) (drop (?pos - length rest) (rx_buf ?s))"
    from lr pos64 lenb
    have sl: "slice (rx_buf ?s) (unat ?search) (length rest) = Some ?moved"
      by (simp add: slice_def us)
    from rest lr have mv: "?moved = rest"
      by (simp add: pending_def drop_take)
    from lr pos64 lenb have lm: "length ?moved = length rest" by simp
    let ?buf' = "?moved @ drop (length ?moved) (rx_buf ?s)"
    from True sc sl have "processSerial clk bytes s0 =
        Some (?d\<lparr>rx_buf := ?buf', rx_pos := of_nat (length rest)\<rparr>, ps)"
      by (simp add: processSerial_def Let_def rem ur)
    moreover from lm lr pos64 lenb have "length ?buf' = 64" by simp
    moreover from lm mv have "take (length rest) ?buf' = rest" by simp
    ultimately show ?thesis using lr pos64 by (intro exI [of _ ?buf']) simp
  qed
qed

lemma processSerial_frames:
  assumes "rx_ok s0" and "frames (pending (rx_fill bytes s0)) = Some (ps, rest)"
  obtains s' where "processSerial clk bytes s0 = Some (s', ps)" and "pending s' = rest"
    and "rx_ok s'" and "unat (rx_pos s') = length rest"
    and "\<exists>buf'. s' = (dispatch clk 0 ps (rx_fill bytes s0))\<lparr>rx_buf := buf', rx_pos := of_nat (length rest)\<rparr>"
proof -
  from processSerial_Some [OF assms, of clk] obtain buf' where
    p: "processSerial clk bytes s0 =
          Some ((dispatch clk 0 ps (rx_fill bytes s0))\<lparr>rx_buf := buf', rx_pos := of_nat (length rest)\<rparr>, ps)"
    and b: "length buf' = 64" "take (length rest) buf' = rest" "length rest \<le> 64"
    by blast
  let ?s' = "(dispatch clk 0 ps (rx_fill bytes s0))\<lparr>rx_buf := buf', rx_pos := of_nat (length rest)\<rparr>"
  from b(3) have u: "unat (of_nat (length rest) :: byte) = length rest"
    by (simp add: unat_of_nat)
  show thesis
  proof (rule that [of ?s'])
    show "processSerial clk bytes s0 = Some (?s', ps)" by (rule p)
    show "pending ?s' = rest" using b u by (simp add: pending_def)
    show "rx_ok ?s'" using b u by (simp add: rx_ok_def)
    show "unat (rx_pos ?s') = length rest" using u by simp
    show "\<exists>buf'a. ?s' = (dispatch clk 0 ps (rx_fill bytes s0))\<lparr>rx_buf := buf'a, rx_pos := of_nat (length rest)\<rparr>"
      by blast
  qed
qed

lemma frames_rest_quiescent: "frames xs = Some (ps, rest) \<Longrightarrow> frames rest = Some ([], rest)"
proof (induction xs arbitrary: ps rest rule: frames.induct)
  case (1 xs)
  show ?case
  proof (cases "length xs \<le> 4")
    case True
    with "1.prems" show ?thesis by (auto simp: frames_short)
  next
    case long: False
    show ?thesis
    proof (cases "xs ! 0 \<noteq> 0xAA \<or> xs ! 1 \<noteq> 0x55")
      case True
      with long "1.prems" have "frames (tl xs) = Some (ps, rest)" by (simp add: frames_skip)
      with "1.IH"(1) long True show ?thesis by simp
    next
      case hdr: False
      from "1.prems" long hdr have small: "\<not> 251 \<le> unat (xs ! 3)"
        by (subst (asm) frames.simps) (auto split: if_splits)
      show ?thesis
      proof (cases "length xs < 5 + unat (xs ! 3)")
        case True
        with "1.prems" long hdr small have "rest = xs" "ps = []"
          by (subst (asm) frames.simps; auto split: if_splits)+
        with "1.prems" show ?thesis by simp
      next
        case complete: False
        from "1.prems" long hdr small complete
        obtain qs where "frames (drop (5 + unat (xs ! 3)) xs) = Some (qs, rest)"
          by (subst (asm) frames.simps) (auto split: if_splits option.splits)
        with "1.IH"(2) long hdr small complete show ?thesis by simp
      qed
    qed
  qed
qed

lemma feed_frames:
  assumes "rx_ok s" and "chunks_fit cs s"
    and "frames (pending s) = Some ([], pending s)"
    and "frames (pending s @ concat (map snd cs)) = Some (ps, rest)"
  shows "\<exists>s'. feed cs s = Some (s', ps) \<and> pending s' = rest \<and> rx_ok s'"
  using assms
proof (induction cs arbitrary: s ps)
  case Nil
  then show ?case by simp
next
  case (Cons a cs)
  obtain clk chunk where a: "a = (clk, chunk)" by (cases a)
  from Cons.prems(2) a have fit: "unat (rx_pos s) + length chunk \<le> 64" by simp
  with Cons.prems(1) have pf: "pending (rx_fill chunk s) = pending s @ chunk"
    by (simp add: pending_rx_fill)
  from Cons.prems(4) a
  have whole: "frames ((pending s @ chunk) @ concat (map snd cs)) = Some (ps, rest)" by simp
  then obtain ps1 r1 where f1: "frames (pending s @ chunk) = Some (ps1, r1)"
    and j: "join ps1 (frames (r1 @ concat (map snd cs))) = Some (ps, rest)"
    by (subst (asm) frames_append) (auto split: option.splits)
  from j obtain ps2 where f2: "frames (r1 @ concat (map snd cs)) = Some (ps2, rest)"
    and ps: "ps = ps1 @ ps2"
    by (cases "frames (r1 @ concat (map snd cs))") auto
  from f1 pf have "frames (pending (rx_fill chunk s)) = Some (ps1, r1)" by simp
  from processSerial_frames [OF Cons.prems(1) this, of clk]
  obtain s1 where p1: "processSerial clk chunk s = Some (s1, ps1)"
    and s1: "pending s1 = r1" "rx_ok s1"
    by blast
  from Cons.prems(2) a p1 have fit': "chunks_fit cs s1" by simp
  from frames_rest_quiescent [OF f1] s1 have q: "frames (pending s1) = Some ([], pending s1)"
    by simp
  from Cons.IH [OF s1(2) fit' q] f2 s1(1)
  obtain s' where "feed cs s1 = Some (s', ps2)" "pending s' = rest" "rx_ok s'"
    by auto
  with p1 a ps show ?case by simp
qed

lemma sendPacket_wire:
  assumes "sendPacket c p l = Some f"
  shows "f = 0xAA # 0x55 # c # l # take (unat l) p @ [crc8 (c # l # take (unat l) p)]"
    and "unat l = length (take (unat l) p)" and "length (take (unat l) p) \<le> 16"
  using assms by (auto simp: sendPacket_def Let_def split: if_splits)

lemma frames_sent:
  assumes "sendPacket c p l = Some f"
  shows "frames (f @ ys) = join [(c, l, take (unat l) p)] (frames ys)"
proof -
  let ?p = "take (unat l) p"
  from sendPacket_wire [OF assms]
  have f: "f = 0xAA # 0x55 # c # l # ?p @ [crc8 (c # l # ?p)]" and l: "unat l = length ?p"
    and b: "length ?p \<le> 250" by simp_all
  have "frames (0xAA # 0x55 # c # l # ?p @ crc8 (c # l # ?p) # ys) =
      join (if crc8 (c # l # ?p) = crc8 (c # l # ?p) then [(c, l, ?p)] else []) (frames ys)"
    by (rule frames_frame [OF l b])
  with f show ?thesis by simp
qed

lemma sent_shape:
  assumes "sendPacket c p l = Some f"
  shows "5 \<le> length f" and "hd f \<noteq> 0x55" and "length f \<le> 21"
  using assms by (auto simp: sendPacket_def Let_def split: if_splits)

section \<open>The read loop at the end of the buffer\<close>

lemma wrap_bound:
  fixes n :: nat
  assumes "0 < n"
  shows "n - 64 * ((n - 1) div 64) \<le> 64" and "64 * ((n - 1) div 64) < n"
proof -
  have "(n - 1) mod 64 < 64" by simp
  moreover have "n - 1 = 64 * ((n - 1) div 64) + (n - 1) mod 64" by (rule mult_div_mod_eq [symmetric])
  ultimately show "n - 64 * ((n - 1) div 64) \<le> 64" and "64 * ((n - 1) div 64) < n"
    using assms by linarith+
qed

lemma wrap_full:
  fixes n :: nat
  assumes "0 < n" and "n - 64 * ((n - 1) div 64) = 64"
  shows "64 * (n div 64) = n"
proof -
  define q where "q = (n - 1) div 64"
  from assms have "n = 64 * q + 64" unfolding q_def by linarith
  then have "n = 64 * (q + 1)" by simp
  then show ?thesis by simp
qed

lemma wrap_same:
  fixes n :: nat
  assumes "0 < n" and "n - 64 * ((n - 1) div 64) \<noteq> 64"
  shows "64 * (n div 64) = 64 * ((n - 1) div 64)"
proof -
  define q where "q = (n - 1) div 64"
  define r where "r = (n - 1) mod 64"
  have m: "r < 64" unfolding r_def by simp
  have e: "n - 1 = 64 * q + r" unfolding q_def r_def by (rule mult_div_mod_eq [symmetric])
  from assms e m have "r < 63" unfolding q_def by linarith
  with e assms(1) have n: "n = (r + 1) + q * 64" and "r + 1 < 64"
    by linarith+
  then have "n div 64 = q" by (simp only: div_mult_self1 div_less)
  then show ?thesis unfolding q_def by simp
qed

lemma pending_rx_push_full:
  assumes "rx_ok s" and "unat (rx_pos s) = 64"
  shows "pending (rx_push s b) = [b]" and "unat (rx_pos (rx_push s b)) = 1"
  using assms
  by (simp_all add: pending_def rx_push_def rx_ok_def Let_def take_Suc_conv_app_nth)

lemma rx_fill_snoc: "rx_fill (g @ [b]) s = rx_push (rx_fill g s) b"
  by (simp add: rx_fill_def)

lemma pending_rx_fill_wrap:
  assumes "rx_ok s" and "pending s @ g \<noteq> []"
  shows "pending (rx_fill g s) =
           drop (64 * ((length (pending s @ g) - 1) div 64)) (pending s @ g)"
  using assms(2)
proof (induction g rule: rev_induct)
  case Nil
  from assms(1) have "length (pending s) \<le> 64" by (simp add: length_pending rx_ok_def)
  then have "(length (pending s) - 1) div 64 = 0" by simp
  then show ?case by (simp add: rx_fill_def)
next
  case (snoc b g)
  let ?s = "rx_fill g s"
  define h where "h = pending s @ g"
  from assms(1) have ok: "rx_ok ?s" by (rule rx_ok_rx_fill)
  have app: "pending s @ g @ [b] = h @ [b]" by (simp add: h_def)
  show ?case
  proof (cases "h = []")
    case True
    then have e: "pending s = []" "g = []" by (simp_all add: h_def)
    with assms(1) have "unat (rx_pos s) = 0" using length_pending [of s] by simp
    with assms(1) have "pending (rx_push s b) = pending s @ [b]"
      by (intro pending_rx_push) simp_all
    with e show ?thesis by (simp add: rx_fill_def)
  next
    case False
    let ?n = "length h"
    let ?k = "64 * ((?n - 1) div 64)"
    from False have n: "0 < ?n" by simp
    from False have ne: "pending s @ g \<noteq> []" by (simp add: h_def)
    from snoc.IH [OF ne] have ih: "pending ?s = drop ?k h" unfolding h_def .
    then have "length (pending ?s) = ?n - ?k" by (simp only: length_drop)
    with ok have pos: "unat (rx_pos ?s) = ?n - ?k"
      using length_pending [of ?s] by simp
    from n have bound: "?n - ?k \<le> 64" "?k < ?n" by (rule wrap_bound)+
    have len: "length (h @ [b]) - 1 = ?n" by simp
    have goal: "pending (rx_push ?s b) = drop (64 * (?n div 64)) (h @ [b])"
    proof (cases "?n - ?k = 64")
      case True
      with pos ok have "pending (rx_push ?s b) = [b]"
        by (intro pending_rx_push_full) simp_all
      moreover from n True have "64 * (?n div 64) = ?n" by (rule wrap_full)
      ultimately show ?thesis by simp
    next
      case False
      with bound pos have "unat (rx_pos ?s) < 64" by simp
      with ok have "pending (rx_push ?s b) = pending ?s @ [b]" by (intro pending_rx_push)
      moreover from n False have "64 * (?n div 64) = ?k" by (rule wrap_same)
      ultimately show ?thesis using ih bound by simp
    qed
    show ?thesis unfolding app len rx_fill_snoc by (rule goal)
  qed
qed

lemma rx_fill_append: "rx_fill (g @ h) s = rx_fill h (rx_fill g s)"
  by (simp add: rx_fill_def)

lemma frames_sent_after_garbage:
  assumes "no_header r" and "sendPacket c p l = Some f"
  shows "frames (r @ f) = Some ([(c, l, take (unat l) p)], [])"
proof -
  from sent_shape [OF assms(2)] assms(1) have "frames (r @ f) = frames f"
    by (intro frames_garbage_prefix) simp_all
  also from frames_sent [OF assms(2), of "[]"] have "\<dots> = Some ([(c, l, take (unat l) p)], [])"
    by simp
  finally show ?thesis .
qed

lemma length_last4: "length (drop (length xs - 4) xs) \<le> 4"
  by simp

section \<open>One iteration of \<open>loop\<close>\<close>

lemma handlePacket_rx_update:
  "handlePacket t c p l (s\<lparr>rx_buf := b, rx_pos := q\<rparr>) = (handlePacket t c p l s)\<lparr>rx_buf := b, rx_pos := q\<rparr>"
  by (simp add: handlePacket_def servoDisable_def Let_def)

lemma dispatch_rx_update:
  "dispatch clk k ps (s\<lparr>rx_buf := b, rx_pos := q\<rparr>) = (dispatch clk k ps s)\<lparr>rx_buf := b, rx_pos := q\<rparr>"
  by (induction clk k ps s rule: dispatch.induct) (simp_all add: handlePacket_rx_update)

lemma rx_push_rx: "rx_push s b = s\<lparr>rx_buf := rx_buf (rx_push s b), rx_pos := rx_pos (rx_push s b)\<rparr>"
  by (simp add: rx_push_def Let_def)

lemma rx_fill_rx: "\<exists>b q. rx_fill bytes s = s\<lparr>rx_buf := b, rx_pos := q\<rparr>"
  unfolding rx_fill_def
proof (induction bytes arbitrary: s)
  case Nil
  have "s = s\<lparr>rx_buf := rx_buf s, rx_pos := rx_pos s\<rparr>" by simp
  then show ?case by (metis foldl_Nil)
next
  case (Cons a bytes)
  from Cons [of "rx_push s a"] obtain b q where
    "foldl rx_push (rx_push s a) bytes = (rx_push s a)\<lparr>rx_buf := b, rx_pos := q\<rparr>" by blast
  then have "foldl rx_push s (a # bytes) = s\<lparr>rx_buf := b, rx_pos := q\<rparr>"
    by (simp add: rx_push_def Let_def)
  then show ?case by blast
qed

lemma processSerial_ctrl:
  assumes "rx_ok s0" and "processSerial clk bytes s0 = Some (s1, tr)"
  obtains b q rest where "s1 = (dispatch clk 0 tr s0)\<lparr>rx_buf := b, rx_pos := q\<rparr>"
    and "rx_ok s1" and "frames (pending (rx_fill bytes s0)) = Some (tr, rest)"
proof -
  from assms obtain ps rest where fr: "frames (pending (rx_fill bytes s0)) = Some (ps, rest)"
    using processSerial_None [OF assms(1), of bytes clk] by (cases "frames (pending (rx_fill bytes s0))") auto
  from processSerial_frames [OF assms(1) fr, of clk] assms(2)
  obtain buf' where s1: "s1 = (dispatch clk 0 ps (rx_fill bytes s0))\<lparr>rx_buf := buf', rx_pos := of_nat (length rest)\<rparr>"
    and tr: "tr = ps" and ok: "rx_ok s1"
    by auto
  from rx_fill_rx [of bytes s0] obtain b q where "rx_fill bytes s0 = s0\<lparr>rx_buf := b, rx_pos := q\<rparr>"
    by blast
  with s1 have "s1 = (dispatch clk 0 ps s0)\<lparr>rx_buf := buf', rx_pos := of_nat (length rest)\<rparr>"
    by (simp add: dispatch_rx_update)
  with tr ok fr show thesis by (intro that) simp_all
qed

lemma loop_SomeE:
  assumes "loop i s = Some (s', tr, tx)"
  obtains s1 s2 s5 s6 txf txl txh where "processSerial (rx_millis i) (rx i) s = Some (s1, tr)"
    and "safety_timeout (now i) s1 = Some (s2, txf)"
    and "telemetry_due (now i) (drive_servo (s2\<lparr>servo_angle_adc := adc i\<rparr>)) = Some (s5, txl)"
    and "heartbeat_due (now i) s5 = Some (s6, txh)"
    and "s' = loop_rate (now i) s6" and "tx = txf @ txl @ txh"
  using assms by (auto simp: loop_def Let_def split: bind_splits prod.splits)

lemma loop_SomeI:
  assumes "processSerial (rx_millis i) (rx i) s = Some (s1, tr)"
    and "safety_timeout (now i) s1 = Some (s2, txf)"
    and "telemetry_due (now i) (drive_servo (s2\<lparr>servo_angle_adc := adc i\<rparr>)) = Some (s5, txl)"
    and "heartbeat_due (now i) s5 = Some (s6, txh)"
  shows "loop i s = Some (loop_rate (now i) s6, tr, txf @ txl @ txh)"
  using assms by (simp add: loop_def Let_def)

lemma sendFault_frame: "sendFault 1 = Some [0xAA, 0x55, 0x11, 0x01, 0x01, 0xDB]"
  by code_simp

lemma sendPacket_cmd:
  assumes "sendPacket c p l = Some f"
  shows "3 \<le> length f" and "f ! 2 = c"
  using assms by (auto simp: sendPacket_def Let_def split: if_splits)

lemma telemetry_due_Some:
  "\<exists>s' tx. telemetry_due t s = Some (s', tx) \<and> filter is_fault tx = [] \<and>
     s' = s\<lparr>last_telemetry_time := last_telemetry_time s'\<rparr>"
proof (cases "t - last_telemetry_time s \<ge> TELEMETRY_INTERVAL_MS")
  case True
  let ?s1 = "s\<lparr>last_telemetry_time := t\<rparr>"
  obtain f where f: "sendTelemetry ?s1 = Some f"
    by (simp add: sendTelemetry_def sendPacket_def Let_def)
  then have "f ! 2 = CMD_TELEMETRY" unfolding sendTelemetry_def by (rule sendPacket_cmd)
  then have "\<not> is_fault f" by (simp add: is_fault_def)
  with True f show ?thesis by (simp add: telemetry_due_def Let_def)
next
  case False
  then show ?thesis by (simp add: telemetry_due_def)
qed

lemma heartbeat_due_Some:
  "\<exists>s' tx. heartbeat_due t s = Some (s', tx) \<and> filter is_fault tx = [] \<and>
     s' = s\<lparr>last_heartbeat_time := last_heartbeat_time s'\<rparr>"
proof (cases "t - last_heartbeat_time s \<ge> HEARTBEAT_INTERVAL_MS")
  case True
  obtain f where f: "sendPacket CMD_HEARTBEAT [] 0 = Some f"
    by (simp add: sendPacket_def Let_def)
  then have "f ! 2 = CMD_HEARTBEAT" by (rule sendPacket_cmd)
  then have "\<not> is_fault f" by (simp add: is_fault_def)
  with True f show ?thesis by (simp add: heartbeat_due_def Let_def)
next
  case False
  then show ?thesis by (simp add: heartbeat_due_def)
qed

lemma relaxed_handlePacket:
  "relaxed_if_disabled s \<Longrightarrow> relaxed_if_disabled (handlePacket t c p l s)"
  by (simp add: relaxed_if_disabled_def handlePacket_def servoDisable_def Let_def)

lemma relaxed_dispatch:
  "relaxed_if_disabled s \<Longrightarrow> relaxed_if_disabled (dispatch clk k ps s)"
  by (induction clk k ps s rule: dispatch.induct) (simp_all add: relaxed_handlePacket)

lemma safety_timeout_cases:
  obtains (fired) "servo_enabled s" "t - last_cmd_time s > SERIAL_TIMEOUT_MS"
      "safety_timeout t s =
         Some (s\<lparr>servo_enabled := False, ledc_duty := 0, fault_code := FAULT_SERIAL_TIMEOUT\<rparr>,
               [[0xAA, 0x55, 0x11, 0x01, 0x01, 0xDB]])"
    | (idle) "\<not> (servo_enabled s \<and> t - last_cmd_time s > SERIAL_TIMEOUT_MS)"
      "safety_timeout t s = Some (s, [])"
  by (cases "servo_enabled s \<and> t - last_cmd_time s > SERIAL_TIMEOUT_MS")
    (auto simp: safety_timeout_def servoDisable_def Let_def sendFault_frame)

lemma fault_frame_is_fault: "is_fault [0xAA, 0x55, 0x11, 0x01, 0x01, 0xDB]"
  by (simp add: is_fault_def)

lemma microsToTicks_pulse:
  assumes "500 \<le> us" and "us \<le> 2500"
  shows "microsToTicks us \<noteq> 0"
proof -
  let ?w = "ucast us :: 64 word"
  from assms have b: "500 \<le> unat us" "unat us \<le> 2500"
    by (simp_all add: word_le_nat_alt)
  from b have u: "unat ?w = unat us"
    by (simp add: unsigned_ucast_eq take_bit_nat_eq_self)
  with b have m: "unat (?w * 2 ^ 16 * 50) = unat us * 3276800"
    by (simp add: unat_word_ariths)
  have "unat (?w * 2 ^ 16 * 50 div 1000000) = unat (?w * 2 ^ 16 * 50) div unat (1000000 :: 64 word)"
    by (rule unat_div)
  also have "\<dots> = unat us * 3276800 div 1000000"
    unfolding m by simp
  finally have "unat (?w * 2 ^ 16 * 50 div 1000000) = unat us * 3276800 div 1000000" .
  with b have q: "1 \<le> unat (?w * 2 ^ 16 * 50 div 1000000)" "unat (?w * 2 ^ 16 * 50 div 1000000) \<le> 8192"
    by simp_all
  then have "unat (ucast (?w * 2 ^ 16 * 50 div 1000000) :: 32 word) = unat (?w * 2 ^ 16 * 50 div 1000000)"
    by (simp add: unsigned_ucast_eq take_bit_nat_eq_self)
  with q have "unat (microsToTicks us) \<noteq> 0" by (simp add: microsToTicks_def)
  then show ?thesis by (metis unat_0)
qed

lemma constrain_range: "500 \<le> constrain us 500 2500" "constrain us 500 2500 \<le> 2500"
  by (auto simp: constrain_def)

lemma drive_servo_pulse:
  "servo_enabled s \<Longrightarrow> ledc_duty (drive_servo s) \<noteq> 0 \<and> servo_enabled (drive_servo s)"
  using microsToTicks_pulse [OF constrain_range]
  by (simp add: drive_servo_def servoWriteUs_def)

lemma drive_servo_idle: "\<not> servo_enabled s \<Longrightarrow> drive_servo s = s"
  by (simp add: drive_servo_def)

text \<open>The effect of one iteration on the enabled flag and the duty.\<close>

lemma loop_effect:
  assumes "rx_ok s" and "loop i s = Some (s', tr, tx)"
  obtains s1 s2 txf txl txh b q where
    "s1 = (dispatch (rx_millis i) 0 tr s)\<lparr>rx_buf := b, rx_pos := q\<rparr>"
    and "safety_timeout (now i) s1 = Some (s2, txf)"
    and "servo_enabled s' = servo_enabled s2"
    and "ledc_duty s' = ledc_duty (drive_servo (s2\<lparr>servo_angle_adc := adc i\<rparr>))"
    and "fault_code s' = fault_code s2"
    and "tx = txf @ txl @ txh" and "filter is_fault txl = []" and "filter is_fault txh = []"
    and "rx_ok s'"
    and "\<exists>rest. frames (pending (rx_fill (rx i) s)) = Some (tr, rest)"
proof -
  from assms(2) obtain s1 s2 s5 s6 txf txl txh where
    ps: "processSerial (rx_millis i) (rx i) s = Some (s1, tr)"
    and st: "safety_timeout (now i) s1 = Some (s2, txf)"
    and td: "telemetry_due (now i) (drive_servo (s2\<lparr>servo_angle_adc := adc i\<rparr>)) = Some (s5, txl)"
    and hd: "heartbeat_due (now i) s5 = Some (s6, txh)"
    and s': "s' = loop_rate (now i) s6" and tx: "tx = txf @ txl @ txh"
    by (rule loop_SomeE)
  from processSerial_ctrl [OF assms(1) ps] obtain b q rest where
    s1: "s1 = (dispatch (rx_millis i) 0 tr s)\<lparr>rx_buf := b, rx_pos := q\<rparr>" and ok1: "rx_ok s1"
    and fr: "frames (pending (rx_fill (rx i) s)) = Some (tr, rest)"
    by blast
  let ?s4 = "drive_servo (s2\<lparr>servo_angle_adc := adc i\<rparr>)"
  from telemetry_due_Some [of "now i" ?s4] td
  have t5: "filter is_fault txl = []" "s5 = ?s4\<lparr>last_telemetry_time := last_telemetry_time s5\<rparr>"
    by auto
  from heartbeat_due_Some [of "now i" s5] hd
  have t6: "filter is_fault txh = []" "s6 = s5\<lparr>last_heartbeat_time := last_heartbeat_time s6\<rparr>"
    by auto
  have rest5: "servo_enabled s5 = servo_enabled ?s4" "ledc_duty s5 = ledc_duty ?s4"
    "fault_code s5 = fault_code ?s4" "rx_buf s5 = rx_buf ?s4" "rx_pos s5 = rx_pos ?s4"
    by (subst t5(2), simp)+
  have rest6: "servo_enabled s6 = servo_enabled s5" "ledc_duty s6 = ledc_duty s5"
    "fault_code s6 = fault_code s5" "rx_buf s6 = rx_buf s5" "rx_pos s6 = rx_pos s5"
    by (subst t6(2), simp)+
  have lr: "servo_enabled s' = servo_enabled s6" "ledc_duty s' = ledc_duty s6"
    "fault_code s' = fault_code s6" "rx_buf s' = rx_buf s6" "rx_pos s' = rx_pos s6"
    unfolding s' by (simp_all add: loop_rate_def Let_def)
  have ds: "servo_enabled ?s4 = servo_enabled s2" "fault_code ?s4 = fault_code s2"
    "rx_buf ?s4 = rx_buf s2" "rx_pos ?s4 = rx_pos s2"
    by (simp_all add: drive_servo_def servoWriteUs_def)
  have "rx_buf s2 = rx_buf s1 \<and> rx_pos s2 = rx_pos s1"
    by (rule safety_timeout_cases [of s1 "now i"]) (use st in auto)
  with ok1 lr rest6 rest5 ds have ok': "rx_ok s'" by (simp add: rx_ok_def)
  show thesis
    by (rule that [OF s1 st _ _ _ tx t5(1) t6(1) ok'])
      (use lr rest6 rest5 ds fr in simp_all)
qed

lemma reachable_rx_ok: "reachable s \<Longrightarrow> rx_ok s"
proof (induction rule: reachable.induct)
  case (reachable_setup t0 t1)
  show ?case by (simp add: rx_ok_def setup_fw_def servoDisable_def)
next
  case (reachable_loop s i s' tr tx)
  from loop_effect [OF reachable_loop.IH reachable_loop.hyps(2)] show ?case by metis
qed

lemma loop_relaxed:
  assumes "rx_ok s" and "relaxed_if_disabled s" and "loop i s = Some (s', tr, tx)"
  shows "relaxed_if_disabled s'"
proof -
  from loop_effect [OF assms(1,3)] obtain s1 s2 txf b q where
    s1: "s1 = (dispatch (rx_millis i) 0 tr s)\<lparr>rx_buf := b, rx_pos := q\<rparr>"
    and st: "safety_timeout (now i) s1 = Some (s2, txf)"
    and en: "servo_enabled s' = servo_enabled s2"
    and du: "ledc_duty s' = ledc_duty (drive_servo (s2\<lparr>servo_angle_adc := adc i\<rparr>))"
    by metis
  from relaxed_dispatch [OF assms(2), of "rx_millis i" 0 tr] s1
  have r1: "relaxed_if_disabled s1" by (simp add: relaxed_if_disabled_def)
  have r2: "relaxed_if_disabled s2"
    by (rule safety_timeout_cases [of s1 "now i"]) (use st r1 in \<open>auto simp: relaxed_if_disabled_def\<close>)
  show ?thesis
  proof (cases "servo_enabled s2")
    case True
    with en show ?thesis by (simp add: relaxed_if_disabled_def)
  next
    case False
    with r2 du en show ?thesis by (simp add: relaxed_if_disabled_def drive_servo_def)
  qed
qed

lemma reachable_relaxed: "reachable s \<Longrightarrow> relaxed_if_disabled s"
proof (induction rule: reachable.induct)
  case (reachable_setup t0 t1)
  show ?case by (simp add: relaxed_if_disabled_def setup_fw_def servoDisable_def)
next
  case (reachable_loop s i s' tr tx)
  from loop_relaxed [OF reachable_rx_ok [OF reachable_loop.hyps(1)] reachable_loop.IH reachable_loop.hyps(2)]
  show ?case .
qed

lemma handlePacket_enable:
  assumes "\<not> servo_enabled s" and "servo_enabled (handlePacket t c p l s)"
  shows "c = CMD_SET_ENABLE \<and> 1 \<le> l \<and> p ! 0 \<noteq> 0"
  using assms by (auto simp: handlePacket_def servoDisable_def Let_def split: if_splits)

lemma dispatch_enable:
  assumes "\<not> servo_enabled s" and "servo_enabled (dispatch clk k ps s)"
  shows "\<exists>l p. (CMD_SET_ENABLE, l, p) \<in> set ps \<and> 1 \<le> l \<and> p ! 0 \<noteq> 0"
  using assms
proof (induction clk k ps s rule: dispatch.induct)
  case (1 clk k s)
  then show ?case by simp
next
  case (2 clk k c l p ps s)
  show ?case
  proof (cases "servo_enabled (handlePacket (clk k) c p l s)")
    case True
    from handlePacket_enable [OF "2.prems"(1) True] show ?thesis by auto
  next
    case False
    from "2.IH" [OF False] "2.prems"(2) show ?thesis by auto
  qed
qed

lemma enabling_mem: "list_ex enabling ps \<longleftrightarrow> (\<exists>l p. (CMD_SET_ENABLE, l, p) \<in> set ps \<and> 1 \<le> l \<and> p ! 0 \<noteq> 0)"
  by (auto simp: list_ex_iff enabling_def)


lemma loop_disabled:
  assumes "rx_ok s" and "\<not> servo_enabled s" and "loop i s = Some (s', tr, tx)"
    and "\<not> list_ex enabling tr"
  shows "\<not> servo_enabled s' \<and> filter is_fault tx = [] \<and> rx_ok s'"
proof -
  from loop_effect [OF assms(1,3)] obtain s1 s2 txf txl txh b q where
    s1: "s1 = (dispatch (rx_millis i) 0 tr s)\<lparr>rx_buf := b, rx_pos := q\<rparr>"
    and st: "safety_timeout (now i) s1 = Some (s2, txf)"
    and en: "servo_enabled s' = servo_enabled s2"
    and tx: "tx = txf @ txl @ txh" "filter is_fault txl = []" "filter is_fault txh = []"
    and ok: "rx_ok s'"
    by metis
  from dispatch_enable [OF assms(2), of "rx_millis i" 0 tr] assms(4)
  have "\<not> servo_enabled (dispatch (rx_millis i) 0 tr s)" by (auto simp: enabling_mem)
  with s1 have d1: "\<not> servo_enabled s1" by simp
  then have "safety_timeout (now i) s1 = Some (s1, [])" by (simp add: safety_timeout_def)
  with st have "s2 = s1" "txf = []" by simp_all
  with d1 en tx ok show ?thesis by simp
qed

lemma run_disabled:
  assumes "rx_ok s" and "\<not> servo_enabled s" and "run ticks s = Some (s', tr, tx)"
    and "\<not> list_ex enabling tr"
  shows "\<not> servo_enabled s' \<and> filter is_fault tx = []"
  using assms
proof (induction ticks arbitrary: s tr tx)
  case Nil
  then show ?case by simp
next
  case (Cons i ticks)
  from Cons.prems(3) obtain s1 tr1 tx1 tr2 tx2 where
    l: "loop i s = Some (s1, tr1, tx1)" and r: "run ticks s1 = Some (s', tr2, tx2)"
    and e: "tr = tr1 @ tr2" "tx = tx1 @ tx2"
    by (auto split: bind_splits)
  from Cons.prems(4) e have n: "\<not> list_ex enabling tr1" "\<not> list_ex enabling tr2"
    by (simp_all add: list_ex_iff)
  from loop_disabled [OF Cons.prems(1,2) l n(1)]
  have "\<not> servo_enabled s1" "filter is_fault tx1 = []" "rx_ok s1" by simp_all
  with Cons.IH [OF _ _ r n(2)] e show ?case by simp
qed

lemma rx_ok_setup: "rx_ok (setup_fw t0 t1)"
  by (simp add: rx_ok_def setup_fw_def servoDisable_def)

section \<open>The claims about the firmware\<close>

text \<open>
  Claim C9. Dispatching SetGain with a payload byte above 100 (150, say) stores gain 100;
  and with gain 0 the pulse width \<open>positionToUs\<close> computes is the midpoint of the output
  range, the map of a zero deflection from -32768..32767 onto 500..2500 microseconds, which
  is 1500, whatever the commanded position.
\<close>

theorem gain_clamp_and_zero_gain_midpoint:
  "(1 \<le> len \<and> payload \<noteq> [] \<and> 100 < hd payload \<longrightarrow>
      gain (handlePacket t CMD_SET_GAIN payload len s) = 100) \<and>
   (gain s' = 0 \<longrightarrow>
      positionToUs s' pos =
        word_of_int (arduino_map 0 (-32768) 32767 (int SERVO_MIN_US) (int SERVO_MAX_US)) \<and>
      positionToUs s' pos = 1500)"
  by (auto simp: handlePacket_def positionToUs_def midpoint_value hd_conv_nth min_def)

theorem gain_clamp_and_zero_gain_midpoint_witness:
  "(1 \<le> (1 :: byte) \<and> [150 :: byte] \<noteq> [] \<and> 100 < hd [150 :: byte]) \<and>
   gain (handlePacket 0 CMD_SET_GAIN [150] 1 (setup_fw 0 0)) = 100 \<and>
   gain (setup_fw 0 0\<lparr>gain := 0\<rparr>) = 0 \<and>
   positionToUs (setup_fw 0 0\<lparr>gain := 0\<rparr>) 12345 = 1500"
proof -
  have a: "1 \<le> (1 :: byte) \<and> [150 :: byte] \<noteq> [] \<and> 100 < hd [150 :: byte]"
    by simp
  have b: "gain (setup_fw 0 0\<lparr>gain := 0\<rparr>) = 0"
    by simp
  from a b gain_clamp_and_zero_gain_midpoint
    [of 1 "[150]" 0 "setup_fw 0 0" "setup_fw 0 0\<lparr>gain := 0\<rparr>" 12345]
  show ?thesis by blast
qed

text \<open>
  Claim C10. A recognised command (SetSteering, SetGain, SetEnable) whose payload is shorter
  than the command requires changes nothing but the last-activity time: commanded position,
  gain, enabled flag and fault code keep their values. The last-activity time is set at every
  call of \<open>handlePacket\<close>, whatever the command id and the payload.
\<close>

theorem short_payload_is_noop:
  "(cmd = CMD_SET_STEERING \<and> len < 2 \<or> cmd = CMD_SET_GAIN \<and> len < 1 \<or>
    cmd = CMD_SET_ENABLE \<and> len < 1 \<longrightarrow>
      handlePacket t cmd payload len s = s\<lparr>last_cmd_time := t\<rparr> \<and>
      commanded_pos (handlePacket t cmd payload len s) = commanded_pos s \<and>
      gain (handlePacket t cmd payload len s) = gain s \<and>
      servo_enabled (handlePacket t cmd payload len s) = servo_enabled s \<and>
      fault_code (handlePacket t cmd payload len s) = fault_code s) \<and>
   last_cmd_time (handlePacket t' cmd' payload' len' s') = t'"
  by (auto simp: handlePacket_def servoDisable_def Let_def)

theorem short_payload_is_noop_witness:
  "(1 :: byte) < 2 \<and> handlePacket 7 CMD_SET_STEERING [0x12] 1 (setup_fw 0 0) = setup_fw 0 0\<lparr>last_cmd_time := 7\<rparr> \<and>
   commanded_pos (handlePacket 7 CMD_SET_STEERING [0x12] 1 (setup_fw 0 0)) = 0 \<and>
   last_cmd_time (handlePacket 9 0x77 [] 0 (setup_fw 0 0)) = 9"
  using short_payload_is_noop [of CMD_SET_STEERING 1 7 "[0x12]" "setup_fw 0 0" 9 "0x77" "[]" 0 "setup_fw 0 0"]
  by (simp add: setup_fw_def servoDisable_def)

text \<open>
  Claim C3. For every command id and every payload of at most 16 bytes, the bytes
  \<open>sendPacket\<close> produces, given to \<open>processSerial\<close> on an empty receive buffer, make it
  call \<open>handlePacket\<close> exactly once, with the same command id, length and payload bytes.
\<close>

theorem roundtrip_encode_decode:
  assumes "rx_ok s" and "rx_pos s = 0" and "length payload \<le> PROTO_MAX_PAYLOAD"
  shows "\<exists>bytes s'. sendPacket cmd payload (of_nat (length payload)) = Some bytes \<and>
           processSerial clk bytes s = Some (s', [(cmd, of_nat (length payload), payload)]) \<and>
           rx_pos s' = 0"
proof -
  let ?len = "of_nat (length payload) :: byte"
  from assms(3) have u: "unat ?len = length payload" by (simp add: unat_of_nat)
  with assms(3) obtain bytes where sp: "sendPacket cmd payload ?len = Some bytes"
    by (simp add: sendPacket_def Let_def)
  from sent_shape [OF sp] assms(2) have "unat (rx_pos s) + length bytes \<le> 64" by simp
  with assms(1) have "pending (rx_fill bytes s) = pending s @ bytes"
    by (rule pending_rx_fill)
  moreover from assms(2) have "pending s = []" by (simp add: pending_def)
  ultimately have "pending (rx_fill bytes s) = bytes" by simp
  moreover from frames_sent [OF sp, of "[]"] u
  have "frames bytes = Some ([(cmd, ?len, payload)], [])" by simp
  ultimately have "frames (pending (rx_fill bytes s)) = Some ([(cmd, ?len, payload)], [])"
    by simp
  from processSerial_frames [OF assms(1) this, of clk]
  obtain s' where "processSerial clk bytes s = Some (s', [(cmd, ?len, payload)])"
    and "unat (rx_pos s') = length ([] :: byte list)" by blast
  with sp show ?thesis by (auto simp: unat_eq_0)
qed

theorem roundtrip_encode_decode_witness:
  "rx_ok (setup_fw 0 0) \<and> rx_pos (setup_fw 0 0) = 0 \<and>
   length [0x00, 0x80 :: byte] \<le> PROTO_MAX_PAYLOAD \<and>
   (\<exists>bytes s'. sendPacket CMD_SET_STEERING [0x00, 0x80] (of_nat (length [0x00, 0x80 :: byte])) = Some bytes \<and>
      processSerial still_clock bytes (setup_fw 0 0) =
        Some (s', [(CMD_SET_STEERING, of_nat (length [0x00, 0x80 :: byte]), [0x00, 0x80])]) \<and>
      rx_pos s' = 0)"
proof -
  have a: "rx_ok (setup_fw 0 0)" and b: "rx_pos (setup_fw 0 0) = 0"
    and c: "length [0x00, 0x80 :: byte] \<le> PROTO_MAX_PAYLOAD"
    by (simp_all add: rx_ok_def setup_fw_def servoDisable_def)
  from a b c roundtrip_encode_decode [OF a b c, of CMD_SET_STEERING still_clock]
  show ?thesis by blast
qed

text \<open>
  Claim C2, as stated: any garbage, a valid frame, a frame with a wrong checksum and another
  valid frame yield exactly the two valid commands, however the stream is chunked. This fails
  when the garbage holds the header signature: after the garbage \<open>AA 55\<close> the decoder reads
  the next two bytes, the header of the first valid frame, as command \<open>0xAA\<close> and length
  \<open>0x55\<close>, waits for 90 bytes, and dispatches nothing.
\<close>

theorem resync_garbage_header_counterexample:
  "\<not> no_header [0xAA, 0x55 :: byte] \<and>
   sendPacket CMD_HEARTBEAT [] 0 = Some [0xAA, 0x55, 0xF0, 0x00, 0x14] \<and>
   crc8 [CMD_SET_ENABLE, 0x01, 0x01] \<noteq> 0x00 \<and>
   chunks_fit
     [(still_clock,
       [0xAA, 0x55] @ [0xAA, 0x55, 0xF0, 0x00, 0x14] @ [0xAA, 0x55, 0x03, 0x01, 0x01, 0x00] @
       [0xAA, 0x55, 0xF0, 0x00, 0x14])]
     (setup_fw 0 0) \<and>
   map_option snd
     (feed
        [(still_clock,
          [0xAA, 0x55] @ [0xAA, 0x55, 0xF0, 0x00, 0x14] @ [0xAA, 0x55, 0x03, 0x01, 0x01, 0x00] @
          [0xAA, 0x55, 0xF0, 0x00, 0x14])]
        (setup_fw 0 0)) = Some []"
  by code_simp

text \<open>
  Claim C2, amended: for garbage that does not contain the header signature \<open>0xAA 0x55\<close>,
  followed by a frame built by \<open>sendPacket\<close>, a frame with a payload of at most 16 bytes
  whose checksum byte is wrong, and another frame built by \<open>sendPacket\<close>, decoding the
  stream from an empty buffer, in any chunks that fit the free part of the buffer when they
  arrive, calls \<open>handlePacket\<close> for exactly the two valid frames, in stream order.
\<close>

theorem resync_two_valid_frames:
  assumes "rx_ok s" and "rx_pos s = 0" and "no_header g"
    and "sendPacket c1 p1 l1 = Some f1" and "sendPacket c2 p2 l2 = Some f2"
    and "unat lb = length pb" and "length pb \<le> PROTO_MAX_PAYLOAD" and "x \<noteq> crc8 (cb # lb # pb)"
    and "concat (map snd cs) = g @ f1 @ (PROTO_HEADER_0 # PROTO_HEADER_1 # cb # lb # pb @ [x]) @ f2"
    and "chunks_fit cs s"
  shows "\<exists>s'. feed cs s = Some (s', [(c1, l1, take (unat l1) p1), (c2, l2, take (unat l2) p2)])"
proof -
  let ?bad = "0xAA # 0x55 # cb # lb # pb @ [x]"
  let ?P1 = "(c1, l1, take (unat l1) p1)"
  let ?P2 = "(c2, l2, take (unat l2) p2)"
  from assms(2) have empty: "pending s = []" by (simp add: pending_def)
  from assms(7) have pb: "length pb \<le> 250" by simp
  from frames_frame [OF assms(6) pb, of cb x f2] assms(8)
  have bad: "frames (?bad @ f2) = frames f2" by auto
  from frames_sent [OF assms(5), of "[]"] have last: "frames f2 = Some ([?P2], [])" by simp
  from sent_shape(1) [OF assms(4)] have "f1 \<noteq> []" by auto
  with sent_shape [OF assms(4)] assms(3)
  have "frames (g @ f1 @ ?bad @ f2) = frames (f1 @ ?bad @ f2)"
    by (intro frames_garbage_prefix) simp_all
  also from frames_sent [OF assms(4)] have "\<dots> = join [?P1] (frames (?bad @ f2))" .
  also from bad last have "\<dots> = Some ([?P1, ?P2], [])" by simp
  finally have "frames (pending s @ concat (map snd cs)) = Some ([?P1, ?P2], [])"
    using empty assms(9) by simp
  moreover from empty have "frames (pending s) = Some ([], pending s)" by simp
  ultimately show ?thesis
    using feed_frames [OF assms(1) assms(10)] by blast
qed

theorem resync_two_valid_frames_witness:
  "rx_ok (setup_fw 0 0) \<and> rx_pos (setup_fw 0 0) = 0 \<and> no_header [0x00, 0xAA, 0x13] \<and>
   sendPacket CMD_SET_STEERING [0x00, 0x80] 2 = Some [0xAA, 0x55, 0x01, 0x02, 0x00, 0x80, 0x49] \<and>
   sendPacket CMD_HEARTBEAT [] 0 = Some [0xAA, 0x55, 0xF0, 0x00, 0x14] \<and>
   unat (1 :: byte) = length [0x01 :: byte] \<and> length [0x01 :: byte] \<le> PROTO_MAX_PAYLOAD \<and>
   0x00 \<noteq> crc8 [CMD_SET_ENABLE, 0x01, 0x01] \<and>
   chunks_fit
     [(still_clock, [0x00, 0xAA, 0x13, 0xAA, 0x55]),
      (still_clock, [0x01, 0x02, 0x00, 0x80, 0x49, 0xAA, 0x55, 0x03]),
      (still_clock, [0x01, 0x01, 0x00, 0xAA, 0x55, 0xF0, 0x00, 0x14])]
     (setup_fw 0 0) \<and>
   (\<exists>s'. feed
      [(still_clock, [0x00, 0xAA, 0x13, 0xAA, 0x55]),
       (still_clock, [0x01, 0x02, 0x00, 0x80, 0x49, 0xAA, 0x55, 0x03]),
       (still_clock, [0x01, 0x01, 0x00, 0xAA, 0x55, 0xF0, 0x00, 0x14])]
      (setup_fw 0 0) = Some (s', [(CMD_SET_STEERING, 2, [0x00, 0x80]), (CMD_HEARTBEAT, 0, [])]))"
proof -
  let ?cs = "[(still_clock, [0x00, 0xAA, 0x13, 0xAA, 0x55 :: byte]),
      (still_clock, [0x01, 0x02, 0x00, 0x80, 0x49, 0xAA, 0x55, 0x03]),
      (still_clock, [0x01, 0x01, 0x00, 0xAA, 0x55, 0xF0, 0x00, 0x14])]"
  have a: "rx_ok (setup_fw 0 0)" and b: "rx_pos (setup_fw 0 0) = 0"
    by (simp_all add: rx_ok_def setup_fw_def servoDisable_def)
  have c: "no_header [0x00, 0xAA, 0x13]" by simp
  have d: "sendPacket CMD_SET_STEERING [0x00, 0x80] 2 = Some [0xAA, 0x55, 0x01, 0x02, 0x00, 0x80, 0x49]"
    by code_simp
  have e: "sendPacket CMD_HEARTBEAT [] 0 = Some [0xAA, 0x55, 0xF0, 0x00, 0x14]"
    by code_simp
  have f: "unat (1 :: byte) = length [0x01 :: byte]" and g: "length [0x01 :: byte] \<le> PROTO_MAX_PAYLOAD"
    by simp_all
  have h: "0x00 \<noteq> crc8 [CMD_SET_ENABLE, 0x01, 0x01]" by code_simp
  have i: "concat (map snd ?cs) =
      [0x00, 0xAA, 0x13] @ [0xAA, 0x55, 0x01, 0x02, 0x00, 0x80, 0x49] @
      (PROTO_HEADER_0 # PROTO_HEADER_1 # CMD_SET_ENABLE # 0x01 # [0x01] @ [0x00]) @
      [0xAA, 0x55, 0xF0, 0x00, 0x14]"
    by simp
  have j: "chunks_fit ?cs (setup_fw 0 0)" by code_simp
  from resync_two_valid_frames [OF a b c d e f g h i j] a b c d e f g h j
  show ?thesis by simp
qed

text \<open>
  Claim C8, as stated: after more than 64 bytes without a header match have reset the
  buffer, a complete valid frame appended after the reset is still decoded and dispatched.
  This fails when the frame itself runs into the end of the buffer: with 126 garbage bytes
  and a Heartbeat frame read in one pass, the cursor restarts after the 64th byte, the
  garbage fills indices 0..61, the frame's \<open>AA 55\<close> lands at 62..63, and the cursor restarts
  again: only \<open>F0 00 14\<close> is left below the cursor and nothing is dispatched.
\<close>

theorem overflow_splits_frame_counterexample:
  "RX_BUF_SIZE < length (replicate 126 (0x11 :: byte)) \<and> no_header (replicate 126 0x11) \<and>
   sendPacket CMD_HEARTBEAT [] 0 = Some [0xAA, 0x55, 0xF0, 0x00, 0x14] \<and>
   map_option (\<lambda>(s, tr). (tr, pending s))
     (processSerial still_clock (replicate 126 0x11 @ [0xAA, 0x55, 0xF0, 0x00, 0x14]) (setup_fw 0 0)) =
     Some ([], [0xF0, 0x00, 0x14])"
  by code_simp

text \<open>
  Claim C8, amended: when the bytes in the buffer and the bytes appended hold no header
  signature and are more than 64 together, the read loop restarts the write cursor at zero:
  afterwards the buffer holds only the bytes that came after the last restart, the earlier
  ones are abandoned. A valid frame that follows is decoded and dispatched when it arrives
  in the next pass, or in the same pass behind the garbage where it fits into the rest of
  the buffer behind the bytes kept.
\<close>

theorem overflow_reset_then_decode:
  assumes "rx_ok s" and "no_header (pending s @ g)"
    and "RX_BUF_SIZE < unat (rx_pos s) + length g"
    and "length payload \<le> PROTO_MAX_PAYLOAD"
  shows "pending (rx_fill g s) =
           drop (64 * ((length (pending s @ g) - 1) div 64)) (pending s @ g) \<and>
         unat (rx_pos (rx_fill g s)) \<le> RX_BUF_SIZE \<and>
         (\<exists>bytes. sendPacket cmd payload (of_nat (length payload)) = Some bytes \<and>
            (\<exists>s1 s2. processSerial clk1 g s = Some (s1, []) \<and>
               processSerial clk2 bytes s1 = Some (s2, [(cmd, of_nat (length payload), payload)])) \<and>
            (unat (rx_pos (rx_fill g s)) + length bytes \<le> RX_BUF_SIZE \<longrightarrow>
               (\<exists>s'. processSerial clk1 (g @ bytes) s = Some (s', [(cmd, of_nat (length payload), payload)]))))"
proof -
  let ?len = "of_nat (length payload) :: byte"
  let ?pk = "(cmd, ?len, payload)"
  let ?h = "pending s @ g"
  let ?g' = "drop (64 * ((length ?h - 1) div 64)) ?h"
  let ?sg = "rx_fill g s"
  from assms(1,3) have "?h \<noteq> []" using length_pending [of s] by auto
  with assms(1) have pg: "pending ?sg = ?g'" by (rule pending_rx_fill_wrap)
  from assms(1) have okg: "rx_ok ?sg" by (rule rx_ok_rx_fill)
  then have pos: "unat (rx_pos ?sg) \<le> 64" by (simp add: rx_ok_def)
  from assms(2) have nh: "no_header ?g'" by (rule no_header_suffix) (rule suffix_drop)
  from assms(4) have u: "unat ?len = length payload" by (simp add: unat_of_nat)
  with assms(4) obtain bytes where sp: "sendPacket cmd payload ?len = Some bytes"
    by (simp add: sendPacket_def Let_def)
  from u have tk: "take (unat ?len) payload = payload" by simp
  \<comment> \<open>the garbage in one pass, the frame in the next\<close>
  let ?r = "drop (length ?g' - 4) ?g'"
  from frames_garbage_only [OF nh] pg have "frames (pending ?sg) = Some ([], ?r)" by simp
  from processSerial_frames [OF assms(1) this, of clk1]
  obtain s1 where p1: "processSerial clk1 g s = Some (s1, [])" and s1: "pending s1 = ?r" "rx_ok s1"
    and l1: "unat (rx_pos s1) = length ?r"
    by blast
  from nh have nr: "no_header ?r" by (rule no_header_suffix) (rule suffix_drop)
  from sent_shape [OF sp] l1 length_last4 [of ?g']
  have "unat (rx_pos s1) + length bytes \<le> 64" by linarith
  with s1 have "pending (rx_fill bytes s1) = ?r @ bytes" by (simp add: pending_rx_fill)
  with frames_sent_after_garbage [OF nr sp] tk
  have "frames (pending (rx_fill bytes s1)) = Some ([?pk], [])" by simp
  from processSerial_frames [OF s1(2) this, of clk2]
  obtain s2 where p2: "processSerial clk2 bytes s1 = Some (s2, [?pk])" by blast
  \<comment> \<open>garbage and frame in the same pass\<close>
  have same: "\<exists>s'. processSerial clk1 (g @ bytes) s = Some (s', [?pk])"
    if fit: "unat (rx_pos ?sg) + length bytes \<le> 64"
  proof -
    from okg fit have "pending (rx_fill bytes ?sg) = pending ?sg @ bytes"
      by (rule pending_rx_fill)
    with pg have "pending (rx_fill (g @ bytes) s) = ?g' @ bytes"
      by (simp add: rx_fill_append)
    with frames_sent_after_garbage [OF nh sp] tk
    have "frames (pending (rx_fill (g @ bytes) s)) = Some ([?pk], [])" by simp
    from processSerial_frames [OF assms(1) this, of clk1] show ?thesis by blast
  qed
  from pg pos sp p1 p2 same show ?thesis by blast
qed

theorem overflow_reset_then_decode_witness:
  "rx_ok (setup_fw 0 0) \<and> no_header (pending (setup_fw 0 0) @ replicate 70 0x11) \<and>
   RX_BUF_SIZE < unat (rx_pos (setup_fw 0 0)) + length (replicate 70 (0x11 :: byte)) \<and>
   length ([] :: byte list) \<le> PROTO_MAX_PAYLOAD \<and>
   pending (rx_fill (replicate 70 0x11) (setup_fw 0 0)) = replicate 6 0x11 \<and>
   unat (rx_pos (rx_fill (replicate 70 0x11) (setup_fw 0 0))) +
     length [0xAA, 0x55, 0xF0, 0x00, 0x14 :: byte] \<le> RX_BUF_SIZE \<and>
   (\<exists>s1 s2. processSerial still_clock (replicate 70 0x11) (setup_fw 0 0) = Some (s1, []) \<and>
      processSerial still_clock [0xAA, 0x55, 0xF0, 0x00, 0x14] s1 = Some (s2, [(CMD_HEARTBEAT, 0, [])])) \<and>
   (\<exists>s'. processSerial still_clock (replicate 70 0x11 @ [0xAA, 0x55, 0xF0, 0x00, 0x14]) (setup_fw 0 0) =
      Some (s', [(CMD_HEARTBEAT, 0, [])]))"
proof -
  have a: "rx_ok (setup_fw 0 0)" by (rule rx_ok_setup)
  have p: "pending (setup_fw 0 0) = []" by (simp add: pending_def setup_fw_def servoDisable_def)
  have "no_header (replicate 70 0x11)" by code_simp
  with p have c: "no_header (pending (setup_fw 0 0) @ replicate 70 0x11)" by simp
  have d: "RX_BUF_SIZE < unat (rx_pos (setup_fw 0 0)) + length (replicate 70 (0x11 :: byte))"
    and e: "length ([] :: byte list) \<le> PROTO_MAX_PAYLOAD"
    by (simp_all add: setup_fw_def servoDisable_def)
  have f: "sendPacket CMD_HEARTBEAT [] (of_nat (length ([] :: byte list))) = Some [0xAA, 0x55, 0xF0, 0x00, 0x14]"
    by code_simp
  have g: "drop (64 * ((length (pending (setup_fw 0 0) @ replicate 70 (0x11 :: byte)) - 1) div 64))
      (pending (setup_fw 0 0) @ replicate 70 0x11) = replicate 6 (0x11 :: byte)"
    unfolding p by simp
  have h: "unat (rx_pos (rx_fill (replicate 70 0x11) (setup_fw 0 0))) +
      length [0xAA, 0x55, 0xF0, 0x00, 0x14 :: byte] \<le> RX_BUF_SIZE"
    by code_simp
  from overflow_reset_then_decode [OF a c d e, of CMD_HEARTBEAT still_clock still_clock] f g h
  show ?thesis using a c d e by auto
qed

text \<open>
  Where the parse pass of an iteration returns without a call of \<open>handlePacket\<close>, the
  timeout works: with the servo enabled and \<open>now - last_cmd_time\<close> (in 32-bit arithmetic)
  above \<open>SERIAL_TIMEOUT_MS\<close>, the iteration returns with the servo disabled, duty 0, fault
  code \<open>FAULT_SERIAL_TIMEOUT\<close> and exactly one Fault frame written; in later iterations in
  which no enabling SetEnable is dispatched, the servo stays disabled and no Fault frame is
  written.
\<close>

lemma timeout_disables_when_pass_returns:
  assumes "rx_ok s" and "servo_enabled s" and "now i - last_cmd_time s > SERIAL_TIMEOUT_MS"
    and "processSerial (rx_millis i) (rx i) s = Some (sp, [])"
  shows "\<exists>s1 tx1. loop i s = Some (s1, [], tx1) \<and>
           \<not> servo_enabled s1 \<and> ledc_duty s1 = 0 \<and> fault_code s1 = FAULT_SERIAL_TIMEOUT \<and>
           filter is_fault tx1 = [[0xAA, 0x55, 0x11, 0x01, 0x01, 0xDB]] \<and>
           (\<forall>ticks s' tr tx. run ticks s1 = Some (s', tr, tx) \<and> \<not> list_ex enabling tr \<longrightarrow>
              \<not> servo_enabled s' \<and> filter is_fault tx = [])"
proof -
  let ?F = "[0xAA, 0x55, 0x11, 0x01, 0x01, 0xDB :: byte]"
  from processSerial_ctrl [OF assms(1,4)] obtain b q where
    sp: "sp = s\<lparr>rx_buf := b, rx_pos := q\<rparr>" and okp: "rx_ok sp"
    by (metis dispatch.simps(1))
  let ?s2 = "sp\<lparr>servo_enabled := False, ledc_duty := 0, fault_code := FAULT_SERIAL_TIMEOUT\<rparr>"
  from sp assms(2,3) have st: "safety_timeout (now i) sp = Some (?s2, [?F])"
    by (simp add: safety_timeout_def servoDisable_def Let_def sendFault_frame)
  let ?s4 = "drive_servo (?s2\<lparr>servo_angle_adc := adc i\<rparr>)"
  from telemetry_due_Some [of "now i" ?s4] obtain s5 txl where
    td: "telemetry_due (now i) ?s4 = Some (s5, txl)" and nl: "filter is_fault txl = []" by blast
  from heartbeat_due_Some [of "now i" s5] obtain s6 txh where
    hd: "heartbeat_due (now i) s5 = Some (s6, txh)" and nh: "filter is_fault txh = []" by blast
  let ?s1 = "loop_rate (now i) s6"
  let ?tx1 = "[?F] @ txl @ txh"
  from loop_SomeI [OF assms(4) st td hd] have l: "loop i s = Some (?s1, [], ?tx1)" .
  from loop_effect [OF assms(1) l] obtain s1' s2' txf' b' q' where
    "s1' = (dispatch (rx_millis i) 0 [] s)\<lparr>rx_buf := b', rx_pos := q'\<rparr>"
    and st': "safety_timeout (now i) s1' = Some (s2', txf')"
    and f: "servo_enabled ?s1 = servo_enabled s2'"
      "ledc_duty ?s1 = ledc_duty (drive_servo (s2'\<lparr>servo_angle_adc := adc i\<rparr>))"
      "fault_code ?s1 = fault_code s2'"
    and ok1: "rx_ok ?s1"
    by metis
  then have s1': "s1' = s\<lparr>rx_buf := b', rx_pos := q'\<rparr>" by simp
  with assms(2,3) have "safety_timeout (now i) s1' =
      Some (s1'\<lparr>servo_enabled := False, ledc_duty := 0, fault_code := FAULT_SERIAL_TIMEOUT\<rparr>, [?F])"
    by (simp add: safety_timeout_def servoDisable_def Let_def sendFault_frame)
  with st' have "s2' = s1'\<lparr>servo_enabled := False, ledc_duty := 0, fault_code := FAULT_SERIAL_TIMEOUT\<rparr>"
    by simp
  with f have fields: "\<not> servo_enabled ?s1" "ledc_duty ?s1 = 0" "fault_code ?s1 = FAULT_SERIAL_TIMEOUT"
    by (simp_all add: drive_servo_def)
  from nl nh have one: "filter is_fault ?tx1 = [?F]" by (simp add: fault_frame_is_fault)
  have later: "\<not> servo_enabled s' \<and> filter is_fault tx = []"
    if "run ticks ?s1 = Some (s', tr, tx) \<and> \<not> list_ex enabling tr" for ticks s' tr tx
    using run_disabled [OF ok1 fields(1), of ticks s' tr tx] that by simp
  from l fields one later show ?thesis by blast
qed

text \<open>
  Claim C1 says that an enabled servo whose link has been silent for longer than the timeout
  is disabled on the next iteration. The parse pass runs before the timeout check and does
  not always return: after SetEnable(1) at time 5 the servo is enabled and driven; at time
  2000, more than 1000 ms after the last valid frame, the bytes \<open>AA 55 01 FB 00\<close> arrive.
  The 8-bit \<open>total\<close> wraps to 0, the checksum is read outside \<open>rx_buf\<close>, and \<open>search\<close> never
  advances: the iteration has no result, the timeout check is not reached, the servo stays
  enabled.
\<close>

theorem timeout_check_not_reached:
  "map_option (\<lambda>(s, tr, tx). (servo_enabled s, ledc_duty s \<noteq> 0, now stall_tick - last_cmd_time s > SERIAL_TIMEOUT_MS))
     (loop enable_tick (setup_fw 0 0)) = Some (True, True, True) \<and>
   rx stall_tick = [0xAA, 0x55, 0x01, 0xFB, 0x00] \<and>
   run [enable_tick, stall_tick] (setup_fw 0 0) = None"
  by code_simp



text \<open>
  Claim C7. Between iterations (after \<open>setup\<close> and after every \<open>loop\<close>) a disabled servo has
  duty 0, no pulses. Inside an iteration: \<open>handlePacket\<close> keeps that invariant, SetEnable
  with a zero byte leaves the servo disabled with duty 0 at once, the timeout branch does
  the same, and the drive step writes nothing while the servo is disabled.
\<close>

theorem disabled_means_relaxed:
  "(reachable s \<and> \<not> servo_enabled s \<longrightarrow> ledc_duty s = 0) \<and>
   ((\<not> servo_enabled m \<longrightarrow> ledc_duty m = 0) \<and> \<not> servo_enabled (handlePacket t c p l m) \<longrightarrow>
      ledc_duty (handlePacket t c p l m) = 0) \<and>
   (1 \<le> l \<and> p ! 0 = 0 \<longrightarrow>
      \<not> servo_enabled (handlePacket t CMD_SET_ENABLE p l m) \<and>
      ledc_duty (handlePacket t CMD_SET_ENABLE p l m) = 0) \<and>
   (servo_enabled m \<and> t' - last_cmd_time m > SERIAL_TIMEOUT_MS \<longrightarrow>
      (\<exists>m' tx. safety_timeout t' m = Some (m', tx) \<and> \<not> servo_enabled m' \<and> ledc_duty m' = 0)) \<and>
   (\<not> servo_enabled m \<longrightarrow> drive_servo m = m)"
proof (intro conjI impI)
  assume "reachable s \<and> \<not> servo_enabled s"
  with reachable_relaxed [of s] show "ledc_duty s = 0" by (simp add: relaxed_if_disabled_def)
next
  assume "(\<not> servo_enabled m \<longrightarrow> ledc_duty m = 0) \<and> \<not> servo_enabled (handlePacket t c p l m)"
  with relaxed_handlePacket [of m t c p l] show "ledc_duty (handlePacket t c p l m) = 0"
    by (simp add: relaxed_if_disabled_def)
next
  assume "1 \<le> l \<and> p ! 0 = 0"
  then show "\<not> servo_enabled (handlePacket t CMD_SET_ENABLE p l m)"
    and "ledc_duty (handlePacket t CMD_SET_ENABLE p l m) = 0"
    by (simp_all add: handlePacket_def servoDisable_def Let_def)
next
  assume "servo_enabled m \<and> t' - last_cmd_time m > SERIAL_TIMEOUT_MS"
  then show "\<exists>m' tx. safety_timeout t' m = Some (m', tx) \<and> \<not> servo_enabled m' \<and> ledc_duty m' = 0"
    by (simp add: safety_timeout_def servoDisable_def Let_def sendFault_frame)
next
  assume "\<not> servo_enabled m"
  then show "drive_servo m = m" by (rule drive_servo_idle)
qed

theorem disabled_means_relaxed_witness:
  "(reachable (setup_fw 0 0) \<and> \<not> servo_enabled (setup_fw 0 0)) \<and> ledc_duty (setup_fw 0 0) = 0 \<and>
   \<not> servo_enabled (handlePacket 7 CMD_SET_ENABLE [0] 1 (setup_fw 0 0\<lparr>servo_enabled := True, ledc_duty := 4915\<rparr>)) \<and>
   ledc_duty (handlePacket 7 CMD_SET_ENABLE [0] 1 (setup_fw 0 0\<lparr>servo_enabled := True, ledc_duty := 4915\<rparr>)) = 0 \<and>
   (1 :: byte) \<le> 1 \<and> [0 :: byte] ! 0 = 0 \<and>
   servo_enabled (setup_fw 0 0\<lparr>servo_enabled := True, ledc_duty := 4915\<rparr>) \<and>
   2000 - last_cmd_time (setup_fw 0 0\<lparr>servo_enabled := True, ledc_duty := 4915\<rparr>) > SERIAL_TIMEOUT_MS \<and>
   (\<exists>m' tx. safety_timeout 2000 (setup_fw 0 0\<lparr>servo_enabled := True, ledc_duty := 4915\<rparr>) = Some (m', tx) \<and>
      \<not> servo_enabled m' \<and> ledc_duty m' = 0) \<and>
   drive_servo (setup_fw 0 0) = setup_fw 0 0"
proof -
  let ?m = "setup_fw 0 0\<lparr>servo_enabled := True, ledc_duty := 4915\<rparr>"
  have a: "reachable (setup_fw 0 0) \<and> \<not> servo_enabled (setup_fw 0 0)"
    using reachable_setup [of 0 0] by (simp add: setup_fw_def servoDisable_def)
  have b: "(1 :: byte) \<le> 1 \<and> [0 :: byte] ! 0 = 0" by simp
  have c: "servo_enabled ?m \<and> 2000 - last_cmd_time ?m > SERIAL_TIMEOUT_MS"
    by (simp add: setup_fw_def servoDisable_def)
  have d: "(\<not> servo_enabled ?m \<longrightarrow> ledc_duty ?m = 0)" by simp
  from disabled_means_relaxed [of "setup_fw 0 0" ?m 7 CMD_SET_ENABLE "[0]" 1 2000]
    disabled_means_relaxed [of "setup_fw 0 0" "setup_fw 0 0" 7 CMD_SET_ENABLE "[0]" 1 2000]
    a b c d
  show ?thesis by blast
qed

text \<open>
  Claim C4 says that no frame whose length byte exceeds 16 is dispatched. The parse loop
  never compares the length byte with \<open>PROTO_MAX_PAYLOAD\<close>: a complete frame with length
  byte 17 and a matching checksum is handed to \<open>handlePacket\<close> with \<open>len = 17\<close>.
\<close>

theorem oversized_frame_is_dispatched:
  "PROTO_MAX_PAYLOAD < unat (0x11 :: byte) \<and>
   map_option snd
     (processSerial still_clock ([0xAA, 0x55, 0xF0, 0x11] @ replicate 17 0 @ [0x5C]) (setup_fw 0 0)) =
     Some [(CMD_HEARTBEAT, 0x11, replicate 17 0)]"
  by code_simp

text \<open>
  Claim C5 says that every read of one parse pass is below the write cursor. With the length
  byte \<open>0xFB\<close> the 8-bit \<open>total = 5 + plen\<close> wraps to 0, the check
  \<open>search + total > rx_pos\<close> passes with five bytes in the buffer, and the checksum byte is
  read at index 255, outside the 64-byte array: the pass, and with it the iteration of
  \<open>loop\<close>, has no defined result.
\<close>

theorem wrapped_total_reads_past_buffer:
  "5 + (0xFB :: byte) = 0 \<and>
   rd (rx_buf (rx_fill [0xAA, 0x55, 0x01, 0xFB, 0x00] (setup_fw 0 0))) (0 + 4 + unat (0xFB :: byte)) = None \<and>
   processSerial still_clock [0xAA, 0x55, 0x01, 0xFB, 0x00] (setup_fw 0 0) = None \<and>
   loop \<lparr>now = 0, rx = [0xAA, 0x55, 0x01, 0xFB, 0x00], rx_millis = still_clock, adc = 0\<rparr> (setup_fw 0 0) = None"
  by code_simp

end
